theory Spec2Isabelle
  imports Main "HOL-Library.Sublist" "HOL-Library.Multiset"
begin

text \<open>
  A model of package \<open>migrate\<close> (\<open>migrate.go\<close>): \<open>Migrate\<close> with its helpers \<open>withTx\<close>,
  \<open>isUndefinedTable\<close> and \<open>initializeSchemaMigrations\<close>.  The database behind \<open>*sql.DB\<close>
  is not part of the package; it is modelled by what the package can observe of it:
  transactions are atomic, a transaction that has ended refuses further statements,
  \<open>create table\<close> fails on a table that exists, a primary key is unique, a query on a
  missing table fails with the driver's error for it, any call that reaches the server
  may fail for reasons of its own, and a table that \<open>create table\<close> reported as created
  need not be there for the calls that follow.  Calls are sequential.  Versions are Go
  \<open>int\<close>s, modelled as integers: the program only compares and sorts them.
\<close>

section \<open>Errors\<close>

text \<open>
  Go error values as the program sees them.  The driver libraries hand back values of
  their own types (\<open>*pq.Error\<close>, \<open>sqlite3.Error\<close>); \<open>database/sql\<close> has the sentinels
  \<open>sql.ErrNoRows\<close> and \<open>sql.ErrTxDone\<close>; the package has the sentinel
  \<open>errMissingSchemaMigration\<close>; \<open>fmt.Errorf("ctx: %w", e)\<close> wraps an error behind a context
  string.  An error of any other dynamic type (another driver's, the network's) is a
  \<open>DriverError\<close>.
\<close>

datatype error =
    PqError string string
  | Sqlite3Error string
  | ErrNoRows
  | ErrTxDone
  | errMissingSchemaMigration
  | ErrorString string
  | DriverError string
  | Wrap string error

text \<open>The \<open>Error()\<close> method: the message of an error; a wrapper prefixes its context.\<close>

fun Error :: "error \<Rightarrow> string" where
  "Error (PqError code msg) = ''pq: '' @ msg"
| "Error (Sqlite3Error msg) = msg"
| "Error ErrNoRows = ''sql: no rows in result set''"
| "Error ErrTxDone = ''sql: transaction has already been committed or rolled back''"
| "Error errMissingSchemaMigration = ''missing schema migrations''"
| "Error (ErrorString s) = s"
| "Error (DriverError s) = s"
| "Error (Wrap ctx e) = ctx @ '': '' @ Error e"

text \<open>\<open>errors.Is\<close> walks the chain of wrapped errors looking for the target.\<close>

fun errors_Is :: "error \<Rightarrow> error \<Rightarrow> bool" where
  "errors_Is (Wrap ctx e) target = (Wrap ctx e = target \<or> errors_Is e target)"
| "errors_Is e target = (e = target)"

text \<open>
  \<open>errors.As\<close> at the two target types of the program: the first \<open>*pq.Error\<close> in the
  chain (its \<open>Code.Name()\<close> is returned), and whether a \<open>sqlite3.Error\<close> is in the chain.
\<close>

fun errors_As_pq :: "error \<Rightarrow> string option" where
  "errors_As_pq (PqError code msg) = Some code"
| "errors_As_pq (Wrap ctx e) = errors_As_pq e"
| "errors_As_pq e = None"

fun errors_As_sqlite3 :: "error \<Rightarrow> bool" where
  "errors_As_sqlite3 (Sqlite3Error msg) = True"
| "errors_As_sqlite3 (Wrap ctx e) = errors_As_sqlite3 e"
| "errors_As_sqlite3 e = False"

text \<open>\<open>isUndefinedTable\<close> returns \<open>(bool, error)\<close>: the error is the left summand.\<close>

definition isUndefinedTable :: "error \<Rightarrow> error + bool" where
  "isUndefinedTable err =
     (case errors_As_pq err of
        Some name \<Rightarrow> Inr (name = ''undefined_table'')
      | None \<Rightarrow>
          if errors_As_sqlite3 err
          then Inr (Error err = ''no such table: schema_migrations'')
          else Inl (ErrorString ''unsupported driver''))"

text \<open>
  How a function of type \<open>func(...) error\<close> ends when it does not return \<open>nil\<close>: it
  returns an error, or it panics.  A panic is not a value that the caller gets to test:
  it unwinds the callers, none of which recovers, so none of their remaining statements
  runs.  \<open>None\<close> of type \<open>failure option\<close> is the return of \<open>nil\<close>.
\<close>

datatype failure = Err error | Panic string

section \<open>The database and its connection\<close>

text \<open>
  The contents of the database: the table \<open>schema_migrations\<close> (absent, or its rows
  \<open>(version, created_at)\<close> in insertion order) and everything else, which only the
  migration bodies interpret.
\<close>

record 's database =
  schema_migrations :: "(int \<times> string) list option"
  schema :: 's

datatype driver = Postgres | SQLite | OtherDriver

text \<open>
  What happened during a run, in order: entries into \<open>Migrate\<close>, transactions opened and
  committed, calls of \<open>Rollback\<close>, statements issued, bodies invoked (with whether the
  body returned \<open>nil\<close>; \<open>EvPanic\<close> when the call panicked) and the lines written by
  \<open>log.Printf\<close>.  The trace is observation only: nothing reads it.
\<close>

datatype event =
    EvMigrate
  | EvBegin
  | EvSelectMax
  | EvCreateTable
  | EvBody int bool
  | EvPanic int
  | EvInsert int
  | EvLog int
  | EvCommit
  | EvRollback

text \<open>
  The handle \<open>*sql.DB\<close> together with the environment behind it: the driver in use, the
  committed contents, a script of outcomes for the calls that reach the server (\<open>None\<close>:
  the call goes through; \<open>Some e\<close>: it fails with \<open>e\<close>; an exhausted script: every call
  goes through), the number of times a \<open>create table schema_migrations\<close> will still
  report success without the table being there afterwards, the clock read by
  \<open>time.Now()\<close>, and the trace.
\<close>

record 's DB =
  driver :: driver
  contents :: "'s database"
  faults :: "error option list"
  lost_creates :: nat
  clock :: "nat \<Rightarrow> string"
  ticks :: nat
  trace :: "event list"

definition emit :: "event \<Rightarrow> 's DB \<Rightarrow> 's DB" where
  "emit ev db = db\<lparr>trace := trace db @ [ev]\<rparr>"

definition next_fault :: "'s DB \<Rightarrow> error option \<times> 's DB" where
  "next_fault db =
     (case faults db of
        [] \<Rightarrow> (None, db)
      | f # fs \<Rightarrow> (f, db\<lparr>faults := fs\<rparr>))"

text \<open>The errors the server reports through each driver.\<close>

fun undefined_table_error :: "driver \<Rightarrow> error" where
  "undefined_table_error Postgres =
     PqError ''undefined_table'' ''relation \"schema_migrations\" does not exist''"
| "undefined_table_error SQLite = Sqlite3Error ''no such table: schema_migrations''"
| "undefined_table_error OtherDriver = DriverError ''table schema_migrations does not exist''"

fun duplicate_table_error :: "driver \<Rightarrow> error" where
  "duplicate_table_error Postgres =
     PqError ''duplicate_table'' ''relation \"schema_migrations\" already exists''"
| "duplicate_table_error SQLite = Sqlite3Error ''table schema_migrations already exists''"
| "duplicate_table_error OtherDriver = DriverError ''table schema_migrations already exists''"

fun unique_violation_error :: "driver \<Rightarrow> error" where
  "unique_violation_error Postgres =
     PqError ''unique_violation'' ''duplicate key value violates unique constraint''"
| "unique_violation_error SQLite =
     Sqlite3Error ''UNIQUE constraint failed: schema_migrations.version''"
| "unique_violation_error OtherDriver = DriverError ''duplicate entry for key version''"

subsection \<open>Transactions\<close>

text \<open>
  A transaction \<open>*sql.Tx\<close>: a working copy of the contents, and whether the transaction
  has ended (by \<open>Commit\<close> or \<open>Rollback\<close>).  \<open>Commit\<close> makes the working copy the committed
  contents; a commit that fails commits nothing.  On a transaction that has ended,
  \<open>database/sql\<close> answers every call with \<open>sql.ErrTxDone\<close> without reaching the server.
  \<open>withTx\<close> drops what \<open>Rollback\<close> returns, and a rollback changes nothing that is
  committed, so \<open>tx_Rollback\<close> only records the call.
\<close>

record 's Tx =
  work :: "'s database"
  ended :: bool

definition db_Begin :: "'s DB \<Rightarrow> (error + 's Tx) \<times> 's DB" where
  "db_Begin db =
     (case next_fault db of
        (Some err, db') \<Rightarrow> (Inl err, db')
      | (None, db') \<Rightarrow> (Inr \<lparr>work = contents db', ended = False\<rparr>, emit EvBegin db'))"

definition tx_Commit :: "'s Tx \<Rightarrow> 's DB \<Rightarrow> error option \<times> 's DB" where
  "tx_Commit tx db =
     (if ended tx then (Some ErrTxDone, db)
      else
        (case next_fault db of
           (Some err, db') \<Rightarrow> (Some err, db')
         | (None, db') \<Rightarrow> (None, emit EvCommit (db'\<lparr>contents := work tx\<rparr>))))"

definition tx_Rollback :: "'s DB \<Rightarrow> 's DB" where
  "tx_Rollback db = emit EvRollback db"

text \<open>
  \<open>withTx\<close>.  The closure \<open>f\<close> works on the transaction and on the environment; what it
  leaves in the variables it captured is its value \<open>'a\<close>.  When \<open>f\<close> panics, neither
  \<open>Rollback\<close> nor \<open>Commit\<close> is reached: the transaction is left as it is, uncommitted.
\<close>

definition withTx ::
  "'s DB \<Rightarrow> ('s Tx \<Rightarrow> 's DB \<Rightarrow> (failure + 'a) \<times> 's Tx \<times> 's DB) \<Rightarrow> (failure + 'a) \<times> 's DB" where
  "withTx db f =
     (case db_Begin db of
        (Inl err, db1) \<Rightarrow> (Inl (Err err), db1)
      | (Inr tx, db1) \<Rightarrow>
          (case f tx db1 of
             (Inl (Panic p), tx', db2) \<Rightarrow> (Inl (Panic p), db2)
           | (Inl (Err err), tx', db2) \<Rightarrow> (Inl (Err err), tx_Rollback db2)
           | (Inr a, tx', db2) \<Rightarrow>
               (case tx_Commit tx' db2 of
                  (Some err, db3) \<Rightarrow> (Inl (Err err), db3)
                | (None, db3) \<Rightarrow> (Inr a, db3))))"

subsection \<open>Statements\<close>

text \<open>SQL \<open>max\<close> over a column is NULL on no rows; \<open>coalesce\<close> replaces NULL.\<close>

fun sql_max :: "int list \<Rightarrow> int option" where
  "sql_max [] = None"
| "sql_max (v # vs) = (case sql_max vs of None \<Rightarrow> Some v | Some m \<Rightarrow> Some (max v m))"

definition coalesce :: "'a option \<Rightarrow> 'a \<Rightarrow> 'a" where
  "coalesce x d = (case x of None \<Rightarrow> d | Some v \<Rightarrow> v)"

text \<open>\<open>select coalesce(max(version), -1) from schema_migrations\<close>, scanned into an int.\<close>

definition select_max :: "'s Tx \<Rightarrow> 's DB \<Rightarrow> (error + int) \<times> 's DB" where
  "select_max tx db =
     (if ended tx then (Inl ErrTxDone, emit EvSelectMax db)
      else
        (case next_fault (emit EvSelectMax db) of
           (Some err, db') \<Rightarrow> (Inl err, db')
         | (None, db') \<Rightarrow>
             (case schema_migrations (work tx) of
                None \<Rightarrow> (Inl (undefined_table_error (driver db')), db')
              | Some rows \<Rightarrow> (Inr (coalesce (sql_max (map fst rows)) (- 1)), db'))))"

text \<open>
  \<open>insert into schema_migrations (version, created_at) values ($1, $2)\<close>; the clock is
  read for the argument before the statement is sent.  \<open>version\<close> is the primary key.
\<close>

definition insert_version :: "int \<Rightarrow> 's Tx \<Rightarrow> 's DB \<Rightarrow> error option \<times> 's Tx \<times> 's DB" where
  "insert_version k tx db =
     (let now = clock db (ticks db);
          db0 = emit (EvInsert k) (db\<lparr>ticks := Suc (ticks db)\<rparr>)
      in if ended tx then (Some ErrTxDone, tx, db0)
         else
           (case next_fault db0 of
              (Some err, db') \<Rightarrow> (Some err, tx, db')
            | (None, db') \<Rightarrow>
                (case schema_migrations (work tx) of
                   None \<Rightarrow> (Some (undefined_table_error (driver db')), tx, db')
                 | Some rows \<Rightarrow>
                     if k \<in> set (map fst rows)
                     then (Some (unique_violation_error (driver db')), tx, db')
                     else (None,
                           tx\<lparr>work := (work tx)\<lparr>schema_migrations := Some (rows @ [(k, now)])\<rparr>\<rparr>,
                           db'))))"

text \<open>
  \<open>initializeSchemaMigrations\<close>: \<open>create table schema_migrations\<close>, outside a transaction.
  The statement fails on a table that exists.  Where it succeeds the table is there for
  the calls that follow, except for the first \<open>lost_creates\<close> times: then the statement
  reports success and the table is still missing afterwards (it was created in a database
  of its own, as when every pooled connection opens an in-memory database of its own).
\<close>

definition initializeSchemaMigrations :: "'s DB \<Rightarrow> error option \<times> 's DB" where
  "initializeSchemaMigrations db =
     (case next_fault (emit EvCreateTable db) of
        (Some err, db') \<Rightarrow> (Some err, db')
      | (None, db') \<Rightarrow>
          (case schema_migrations (contents db') of
             Some rows \<Rightarrow> (Some (duplicate_table_error (driver db')), db')
           | None \<Rightarrow>
               if 0 < lost_creates db'
               then (None, db'\<lparr>lost_creates := lost_creates db' - 1\<rparr>)
               else (None, db'\<lparr>contents := (contents db')\<lparr>schema_migrations := Some []\<rparr>\<rparr>)))"

section \<open>Migrate\<close>

text \<open>
  A migration body \<open>func(tx *sql.Tx) error\<close>.  What a call of it comes to is a function of
  the state of the transaction it is given: how the call ends (\<open>nil\<close>, an error, a panic),
  the state it leaves the transaction in, also when it fails, and whether it ended the
  transaction itself, by \<open>tx.Commit()\<close> or by \<open>tx.Rollback()\<close>.  A body sees the whole
  transaction, the table of applied migrations included.  The nil function is a value of
  the type; calling it panics.  The map \<open>map[int]Migration\<close> is a list of pairs with
  distinct keys, in the order in which \<open>range\<close> happens to visit them.
\<close>

datatype ending = StillOpen | BodyCommitted | BodyRolledBack

type_synonym 's Migration = "'s database \<Rightarrow> failure option \<times> 's database \<times> ending"

definition nil_Migration :: "'s Migration" where
  "nil_Migration d = (Some (Panic ''invalid memory address or nil pointer dereference''), d, StillOpen)"

text \<open>
  The call \<open>m(tx)\<close>: the transaction as the body leaves it.  A body that committed the
  transaction itself has made its work the committed contents.
\<close>

definition call_body :: "'s Migration \<Rightarrow> 's Tx \<Rightarrow> 's DB \<Rightarrow> failure option \<times> 's Tx \<times> 's DB" where
  "call_body m tx db =
     (case m (work tx) of
        (ret, d, StillOpen) \<Rightarrow> (ret, tx\<lparr>work := d\<rparr>, db)
      | (ret, d, BodyCommitted) \<Rightarrow> (ret, \<lparr>work = d, ended = True\<rparr>, db\<lparr>contents := d\<rparr>)
      | (ret, d, BodyRolledBack) \<Rightarrow> (ret, \<lparr>work = d, ended = True\<rparr>, db))"

text \<open>
  The closure of the first \<open>withTx\<close>: its value is \<open>maxApplied\<close>, which stays at Go's zero
  value when the scan reports \<open>sql.ErrNoRows\<close>.
\<close>

definition select_maxApplied :: "'s Tx \<Rightarrow> 's DB \<Rightarrow> (failure + int) \<times> 's Tx \<times> 's DB" where
  "select_maxApplied tx db =
     (case select_max tx db of
        (Inr maxApplied, db') \<Rightarrow> (Inr maxApplied, tx, db')
      | (Inl err, db') \<Rightarrow>
          if \<not> errors_Is err ErrNoRows then
            (case isUndefinedTable err of
               Inl err2 \<Rightarrow> (Inl (Err (Wrap ''failed to parse error'' err2)), tx, db')
             | Inr undefined_table \<Rightarrow>
                 if undefined_table then (Inl (Err errMissingSchemaMigration), tx, db')
                 else (Inl (Err (Wrap ''failed to select max applied migration'' err)), tx, db'))
          else (Inr 0, tx, db'))"

text \<open>
  The closure of the \<open>withTx\<close> in the loop.  \<open>migrations[k]\<close> at a key the map lacks is the
  nil function; \<open>k\<close> ranges over the keys, so the lookup finds the value the caller put
  there (\<open>key_has_body\<close> below), which may itself be the nil function.
\<close>

definition apply_migration ::
  "(int \<times> 's Migration) list \<Rightarrow> int \<Rightarrow> 's Tx \<Rightarrow> 's DB \<Rightarrow> (failure + unit) \<times> 's Tx \<times> 's DB" where
  "apply_migration migrations k tx db =
     (let m = (case map_of migrations k of None \<Rightarrow> nil_Migration | Some m \<Rightarrow> m) in
      case call_body m tx db of
        (Some (Panic p), tx1, db1) \<Rightarrow> (Inl (Panic p), tx1, emit (EvPanic k) db1)
      | (Some (Err err), tx1, db1) \<Rightarrow> (Inl (Err err), tx1, emit (EvBody k False) db1)
      | (None, tx1, db1) \<Rightarrow>
          (case insert_version k tx1 (emit (EvBody k True) db1) of
             (Some err, tx2, db2) \<Rightarrow> (Inl (Err err), tx2, db2)
           | (None, tx2, db2) \<Rightarrow> (Inr (), tx2, emit (EvLog k) db2)))"

text \<open>
  The loop \<open>for _, k := range keys\<close>.  A transaction that fails ends it: the error is
  returned, a panic goes on unwinding.
\<close>

fun apply_outstanding ::
  "(int \<times> 's Migration) list \<Rightarrow> int \<Rightarrow> int list \<Rightarrow> 's DB \<Rightarrow> failure option \<times> 's DB" where
  "apply_outstanding migrations maxApplied [] db = (None, db)"
| "apply_outstanding migrations maxApplied (k # keys) db =
     (if k \<le> maxApplied then apply_outstanding migrations maxApplied keys db
      else
        (case withTx db (apply_migration migrations k) of
           (Inl err, db') \<Rightarrow> (Some err, db')
         | (Inr u, db') \<Rightarrow> apply_outstanding migrations maxApplied keys db'))"

text \<open>
  \<open>Migrate\<close>.  The call of itself after a successful initialisation is unconditional in
  the source, which counts no retries; that every invocation returns rests on the
  database, which loses a created table only \<open>lost_creates\<close> times.  The first closure
  does not panic; the branch for it is there because \<open>withTx\<close> passes a panic on.
\<close>

function Migrate :: "'s DB \<Rightarrow> (int \<times> 's Migration) list \<Rightarrow> failure option \<times> 's DB" where
  "Migrate db migrations =
     (let keys = sort (map fst migrations) in
      case withTx (emit EvMigrate db) select_maxApplied of
        (Inl (Panic p), db1) \<Rightarrow> (Some (Panic p), db1)
      | (Inl (Err err), db1) \<Rightarrow>
          if errors_Is err errMissingSchemaMigration then
            (case initializeSchemaMigrations db1 of
               (Some err', db2) \<Rightarrow>
                 (Some (Err (Wrap ''failed to initialize schema migrations'' err')), db2)
             | (None, db2) \<Rightarrow> Migrate db2 migrations)
          else (Some (Err err), db1)
      | (Inr maxApplied, db1) \<Rightarrow> apply_outstanding migrations maxApplied keys db1)"
  by pat_completeness auto

section \<open>Observations\<close>

text \<open>The events a run added to the trace.\<close>

definition events_since :: "'s DB \<Rightarrow> 's DB \<Rightarrow> event list" where
  "events_since db db' = drop (length (trace db)) (trace db')"

text \<open>The versions whose bodies were invoked, in order of invocation.\<close>

fun invoked :: "event list \<Rightarrow> int list" where
  "invoked [] = []"
| "invoked (EvBody k ok # es) = k # invoked es"
| "invoked (EvPanic k # es) = k # invoked es"
| "invoked (e # es) = invoked es"

text \<open>
  The versions whose transaction committed.  The line \<open>Applied migration k\<close> is logged by
  the closure once the body of \<open>k\<close> and the insert of its record have both succeeded; the
  commit that comes next in the trace is the commit of that transaction.
\<close>

fun committed :: "event list \<Rightarrow> int list" where
  "committed [] = []"
| "committed [e] = []"
| "committed (e # e' # es) =
     (case (e, e') of
        (EvLog k, EvCommit) \<Rightarrow> k # committed es
      | _ \<Rightarrow> committed (e' # es))"

text \<open>
  The events of a transaction of the loop that commits, and the events of one that does
  not: \<open>Begin\<close> fails; the call of the body panics; the body returns an error; the insert
  fails; the commit fails.
\<close>

definition tx_events :: "int \<Rightarrow> event list" where
  "tx_events k = [EvBegin, EvBody k True, EvInsert k, EvLog k, EvCommit]"

definition failed_tx_events :: "int \<Rightarrow> event list set" where
  "failed_tx_events k =
     {[], [EvBegin, EvPanic k], [EvBegin, EvBody k False, EvRollback],
      [EvBegin, EvBody k True, EvInsert k, EvRollback],
      [EvBegin, EvBody k True, EvInsert k, EvLog k]}"

text \<open>The rows of the table of applied migrations, and their versions.\<close>

definition records :: "'s database \<Rightarrow> (int \<times> string) list" where
  "records d = (case schema_migrations d of None \<Rightarrow> [] | Some rows \<Rightarrow> rows)"

definition versions :: "'s database \<Rightarrow> int list" where
  "versions d = map fst (records d)"

text \<open>
  A body that does not write the table of applied migrations: whatever of its work gets
  committed (it returned \<open>nil\<close> with the transaction open, or it committed the transaction
  itself) has the table as the body found it.
\<close>

definition keeps_records :: "'s Migration \<Rightarrow> bool" where
  "keeps_records m =
     (\<forall>d ret d' e. m d = (ret, d', e) \<longrightarrow> (ret = None \<and> e = StillOpen \<or> e = BodyCommitted) \<longrightarrow>
        schema_migrations d' = schema_migrations d)"

text \<open>A body that does not end the transaction it is given.\<close>

definition leaves_open :: "'s Migration \<Rightarrow> bool" where
  "leaves_open m = (\<forall>d. snd (snd (m d)) = StillOpen)"

text \<open>A body that fails in no state: it returns \<open>nil\<close>, the transaction still open.\<close>

definition always_succeeds :: "'s Migration \<Rightarrow> bool" where
  "always_succeeds m = (\<forall>d. \<exists>d'. m d = (None, d', StillOpen))"

text \<open>A script of outcomes in which no call reports \<open>sql.ErrNoRows\<close>.\<close>

definition no_ErrNoRows :: "error option list \<Rightarrow> bool" where
  "no_ErrNoRows fs = (\<forall>e. Some e \<in> set fs \<longrightarrow> \<not> errors_Is e ErrNoRows)"

text \<open>The highest version among the rows, or the sentinel \<open>-1\<close> when there is none.\<close>

definition watermark :: "'s database \<Rightarrow> int" where
  "watermark d = (if versions d = [] then - 1 else Max (set (versions d)))"

text \<open>
  A bound on the calls of \<open>Migrate\<close> to itself that are still to come: one for each table
  the database will lose, and one for the table that is missing now.
\<close>

definition retries_left :: "'s DB \<Rightarrow> nat" where
  "retries_left db =
     2 * lost_creates db + (if schema_migrations (contents db) = None then 1 else 0)"

text \<open>
  What a run of the loop over \<open>keys\<close> with watermark \<open>w\<close> comes to: the transactions of
  the versions \<open>done\<close> commit one after the other; then either the outstanding keys are
  used up, or the transaction of the next one fails with the events \<open>tail\<close> and the run
  ends there.  The record of the last version that committed is in the table when the
  loop returns \<open>nil\<close>; and bodies that do not write the table leave in it the rows that
  were there, followed by one row for each version that committed.
\<close>

definition loop_outcome ::
  "(int \<times> 's Migration) list \<Rightarrow> int \<Rightarrow> int list \<Rightarrow> 's DB \<Rightarrow> failure option \<Rightarrow> 's DB \<Rightarrow>
     int list \<Rightarrow> event list \<Rightarrow> bool" where
  "loop_outcome ms w keys db r db' done tail \<longleftrightarrow>
     trace db' = trace db @ concat (map tx_events done) @ tail \<and>
     (case r of
        None \<Rightarrow> tail = [] \<and> filter ((<) w) keys = done
      | Some a \<Rightarrow>
          \<exists>k rest. filter ((<) w) keys = done @ k # rest \<and> tail \<in> failed_tx_events k \<and>
            (faults db = [] \<longrightarrow> invoked tail = [k]) \<and>
            (EvBody k False \<in> set tail \<longrightarrow>
               (\<exists>m e. a = Err e \<and> map_of ms k = Some m \<and>
                  (leaves_open m \<longrightarrow> fst (m (contents db')) = Some (Err e))))) \<and>
     (r = None \<longrightarrow>
        (if done = [] then db' = db
         else schema_migrations (contents db') \<noteq> None \<and>
              last done \<in> set (versions (contents db')))) \<and>
     ((\<forall>(k, m) \<in> set ms. keeps_records m) \<longrightarrow>
        (\<exists>new. records (contents db') = records (contents db) @ new \<and> map fst new = done) \<and>
        (schema_migrations (contents db) \<noteq> None \<longrightarrow>
           schema_migrations (contents db') \<noteq> None))"

text \<open>
  What the part of a run before the loop may do: it adds events \<open>pre\<close>, none of them of
  a migration, and leaves the driver, the clock, the schema and the rows alone; it only
  consumes outcomes of the script.
\<close>

definition prelude :: "'s DB \<Rightarrow> 's DB \<Rightarrow> event list \<Rightarrow> bool" where
  "prelude db db1 pre \<longleftrightarrow>
     trace db1 = trace db @ pre \<and>
     set pre \<subseteq> {EvMigrate, EvBegin, EvSelectMax, EvCreateTable, EvCommit, EvRollback} \<and>
     driver db1 = driver db \<and> clock db1 = clock db \<and>
     suffix (faults db1) (faults db) \<and>
     schema (contents db1) = schema (contents db) \<and>
     records (contents db1) = records (contents db)"

section \<open>Example databases and migrations\<close>

text \<open>
  The schema of the examples is the list of its tables.  \<open>fresh d\<close> is an empty database
  reached through driver \<open>d\<close>; the bodies are those of the repository's tests.
\<close>

definition fresh :: "driver \<Rightarrow> string list DB" where
  "fresh d =
     \<lparr>driver = d,
      contents = \<lparr>schema_migrations = None, schema = []\<rparr>,
      faults = [],
      lost_creates = 0,
      clock = (\<lambda>n. ''2024-01-01T00:00:00Z''),
      ticks = 0,
      trace = []\<rparr>"

definition create_table :: "string \<Rightarrow> string list Migration" where
  "create_table name d =
     (if name \<in> set (schema d)
      then (Some (Err (ErrorString (''table '' @ name @ '' already exists''))), d, StillOpen)
      else (None, d\<lparr>schema := schema d @ [name]\<rparr>, StillOpen))"

definition failing :: "string \<Rightarrow> string list Migration" where
  "failing msg d = (Some (Err (ErrorString msg)), d, StillOpen)"

text \<open>Versions with gaps, in two iteration orders.\<close>

definition gaps :: "(int \<times> string list Migration) list" where
  "gaps = [(100, create_table ''c''), (1, create_table ''a''), (5, create_table ''b'')]"

definition gaps' :: "(int \<times> string list Migration) list" where
  "gaps' = [(5, create_table ''b''), (100, create_table ''c''), (1, create_table ''a'')]"

text \<open>
  Databases on which a call fails: the third call (\<open>create table\<close>, after \<open>Begin\<close> and the
  query) is refused; the table exists and the second call (the query) fails with \<open>e\<close>.
\<close>

definition init_fails :: "string list DB" where
  "init_fails =
     (fresh Postgres)\<lparr>faults := [None, None, Some (DriverError ''permission denied'')]\<rparr>"

definition bootstrapped :: "driver \<Rightarrow> string list DB" where
  "bootstrapped d = (fresh d)\<lparr>contents := \<lparr>schema_migrations = Some [], schema = []\<rparr>\<rparr>"

definition query_fails :: "driver \<Rightarrow> error \<Rightarrow> string list DB" where
  "query_fails d e = (bootstrapped d)\<lparr>faults := [None, Some e]\<rparr>"

text \<open>The maps of the repository's tests.\<close>

definition users_posts :: "(int \<times> string list Migration) list" where
  "users_posts = [(2, create_table ''posts''), (1, create_table ''users'')]"

definition users_posts_broken :: "(int \<times> string list Migration) list" where
  "users_posts_broken =
     [(1, create_table ''users''), (2, create_table ''posts''),
      (3, failing ''failed to apply migration 3''),
      (4, failing ''failed to apply migration 4'')]"

text \<open>A map whose only version is negative.\<close>

definition negative_only :: "(int \<times> string list Migration) list" where
  "negative_only = [(- 1, create_table ''users'')]"

text \<open>A map with version 0 and a version below it.\<close>

definition with_negative :: "(int \<times> string list Migration) list" where
  "with_negative = [(0, create_table ''users''), (- 1, create_table ''legacy'')]"

text \<open>
  A database on which the twelfth call fails: with \<open>users_posts\<close> on a fresh database
  that is the commit of migration 2.
\<close>

definition commit_fails :: "string list DB" where
  "commit_fails =
     (fresh Postgres)\<lparr>faults := replicate 11 None @ [Some (DriverError ''connection reset'')]\<rparr>"

text \<open>
  Bodies that do more than the tests' do: one creates a table and then returns an error;
  one writes a row of its own into the table of applied migrations; one creates a table
  and commits the transaction itself.
\<close>

definition create_then_fail :: "string \<Rightarrow> string \<Rightarrow> string list Migration" where
  "create_then_fail name msg d =
     (Some (Err (ErrorString msg)), d\<lparr>schema := schema d @ [name]\<rparr>, StillOpen)"

definition writes_record :: "int \<Rightarrow> string list Migration" where
  "writes_record v d =
     (None,
      d\<lparr>schema_migrations := map_option (\<lambda>rows. rows @ [(v, ''by hand'')]) (schema_migrations d)\<rparr>,
      StillOpen)"

definition create_and_commit :: "string \<Rightarrow> string list Migration" where
  "create_and_commit name d = (None, d\<lparr>schema := schema d @ [name]\<rparr>, BodyCommitted)"

definition forged_record :: "(int \<times> string list Migration) list" where
  "forged_record = [(1, writes_record 99), (2, failing ''failed to apply migration 2'')]"

definition commits_itself :: "(int \<times> string list Migration) list" where
  "commits_itself = [(1, create_and_commit ''users'')]"

definition users_then_half :: "(int \<times> string list Migration) list" where
  "users_then_half =
     [(1, create_table ''users''), (2, create_then_fail ''posts'' ''failed to apply migration 2'')]"

text \<open>
  A database that loses the table twice: two \<open>create table\<close> in a row report success and
  leave no table behind.
\<close>

definition loses_table :: "string list DB" where
  "loses_table = (fresh SQLite)\<lparr>lost_creates := 2\<rparr>"

section \<open>Termination\<close>

lemma withTx_select_maxApplied_contents:
  "withTx db select_maxApplied = (r, db') \<Longrightarrow>
     contents db' = contents db \<and> lost_creates db' = lost_creates db"
  by (auto simp: withTx_def db_Begin_def tx_Commit_def tx_Rollback_def emit_def
      next_fault_def select_maxApplied_def select_max_def
      split: list.splits option.splits sum.splits if_splits prod.splits failure.splits)

lemma initializeSchemaMigrations_creates:
  "initializeSchemaMigrations db = (None, db') \<Longrightarrow>
     schema_migrations (contents db) = None \<and>
     (if 0 < lost_creates db
      then contents db' = contents db \<and> lost_creates db' = lost_creates db - 1
      else schema_migrations (contents db') = Some [] \<and> lost_creates db' = 0)"
  by (auto simp: initializeSchemaMigrations_def emit_def next_fault_def
      split: list.splits option.splits if_splits)

lemma retry_decreases:
  assumes "withTx (emit EvMigrate db) select_maxApplied = (res, db1)"
    and "initializeSchemaMigrations db1 = (None, db2)"
  shows "retries_left db2 < retries_left db"
  using withTx_select_maxApplied_contents [OF assms(1)]
    initializeSchemaMigrations_creates [OF assms(2)]
  by (auto simp: retries_left_def emit_def split: if_splits)

termination Migrate
proof (relation "measure (\<lambda>(db, ms). retries_left db)")
qed (auto intro: retry_decreases [OF sym sym])

declare Migrate.simps [simp del]

section \<open>One transaction of the loop\<close>

lemmas op_defs = withTx_def db_Begin_def tx_Commit_def tx_Rollback_def emit_def
  next_fault_def insert_version_def apply_migration_def call_body_def nil_Migration_def

lemmas op_splits = list.splits option.splits sum.splits if_splits prod.splits
  failure.splits ending.splits

lemma key_has_body: "k \<in> set (sort (map fst migrations)) \<Longrightarrow> map_of migrations k \<noteq> None"
  by (simp add: map_of_eq_None_iff)

lemma step_ok:
  assumes "withTx db (apply_migration ms k) = (Inr u, db')"
  shows "\<exists>m d rows. map_of ms k = Some m \<and> m (contents db) = (None, d, StillOpen) \<and>
           schema_migrations d = Some rows \<and> k \<notin> fst ` set rows \<and>
           contents db' = d\<lparr>schema_migrations := Some (rows @ [(k, clock db (ticks db))])\<rparr> \<and>
           trace db' = trace db @ tx_events k \<and> (faults db = [] \<longrightarrow> faults db' = [])"
  using assms
  by (auto simp: op_defs Let_def tx_events_def split: op_splits)

lemma leaves_openD: "leaves_open m \<Longrightarrow> m d = (ret, d', e) \<Longrightarrow> e = StillOpen"
  by (auto simp: leaves_open_def dest: spec [of _ d])

lemma keeps_recordsD:
  "keeps_records m \<Longrightarrow> m d = (ret, d', e) \<Longrightarrow> ret = None \<and> e = StillOpen \<or> e = BodyCommitted \<Longrightarrow>
     schema_migrations d' = schema_migrations d"
  unfolding keeps_records_def by blast

lemma step_fail:
  assumes "withTx db (apply_migration ms k) = (Inl a, db')"
  shows "\<exists>tail. trace db' = trace db @ tail \<and> tail \<in> failed_tx_events k \<and>
           (faults db = [] \<longrightarrow> invoked tail = [k]) \<and>
           (EvBody k False \<in> set tail \<longrightarrow>
              (\<exists>m e. a = Err e \<and> map_of ms k = Some m \<and> fst (m (contents db)) = Some (Err e)))"
  using assms
  by (auto simp: op_defs Let_def failed_tx_events_def split: op_splits)

lemma step_fail_contents:
  assumes "withTx db (apply_migration ms k) = (Inl a, db')"
    and "\<And>m. map_of ms k = Some m \<Longrightarrow> leaves_open m"
  shows "contents db' = contents db"
  using assms
  by (auto simp: op_defs Let_def split: op_splits dest: leaves_openD)

lemma step_fail_records:
  assumes "withTx db (apply_migration ms k) = (Inl a, db')"
    and "\<And>m. map_of ms k = Some m \<Longrightarrow> keeps_records m"
  shows "schema_migrations (contents db') = schema_migrations (contents db)"
  using assms
  by (auto simp: op_defs Let_def split: op_splits dest: keeps_recordsD)

lemma step_ok_records:
  assumes "withTx db (apply_migration ms k) = (Inr u, db')"
    and "\<forall>(k, m) \<in> set ms. keeps_records m"
  shows "records (contents db') = records (contents db) @ [(k, clock db (ticks db))] \<and>
         schema_migrations (contents db) \<noteq> None \<and> k \<notin> set (versions (contents db)) \<and>
         schema_migrations (contents db') \<noteq> None"
proof -
  from step_ok [OF assms(1)] obtain m d rows where
    m: "map_of ms k = Some m" and b: "m (contents db) = (None, d, StillOpen)"
    and rows: "schema_migrations d = Some rows" and k: "k \<notin> fst ` set rows"
    and c: "contents db' = d\<lparr>schema_migrations := Some (rows @ [(k, clock db (ticks db))])\<rparr>"
    by blast
  from m have "(k, m) \<in> set ms" by (rule map_of_SomeD)
  with assms(2) have "keeps_records m" by auto
  from keeps_recordsD [OF this b] have "schema_migrations d = schema_migrations (contents db)"
    by simp
  with rows c k show ?thesis by (simp add: records_def versions_def)
qed

section \<open>The loop\<close>

lemma loop_outcome_Nil: "loop_outcome ms w [] db None db [] []"
  by (simp add: loop_outcome_def)

lemma loop_outcome_skip:
  assumes "k \<le> w" and "loop_outcome ms w keys db r db' done tail"
  shows "loop_outcome ms w (k # keys) db r db' done tail"
proof -
  have eq: "filter ((<) w) (k # keys) = filter ((<) w) keys"
    using assms(1) by simp
  show ?thesis using assms(2) unfolding loop_outcome_def eq .
qed

lemma loop_outcome_fail:
  assumes "\<not> k \<le> w" and step: "withTx db (apply_migration ms k) = (Inl a, db')"
  shows "\<exists>tail. loop_outcome ms w (k # keys) db (Some a) db' [] tail"
proof -
  from step_fail [OF step] obtain tail where
    t: "trace db' = trace db @ tail" and f: "tail \<in> failed_tx_events k"
    and i: "faults db = [] \<longrightarrow> invoked tail = [k]"
    and b: "EvBody k False \<in> set tail \<longrightarrow>
              (\<exists>m e. a = Err e \<and> map_of ms k = Some m \<and> fst (m (contents db)) = Some (Err e))"
    by blast
  have 1: "trace db' = trace db @ concat (map tx_events []) @ tail"
    using t by simp
  have b': "EvBody k False \<in> set tail \<longrightarrow>
              (\<exists>m e. a = Err e \<and> map_of ms k = Some m \<and>
                 (leaves_open m \<longrightarrow> fst (m (contents db')) = Some (Err e)))"
  proof
    assume "EvBody k False \<in> set tail"
    with b obtain m e where
      m: "a = Err e" "map_of ms k = Some m" "fst (m (contents db)) = Some (Err e)"
      by blast
    have "leaves_open m \<longrightarrow> fst (m (contents db')) = Some (Err e)"
    proof
      assume "leaves_open m"
      with m(2) have "contents db' = contents db"
        by (intro step_fail_contents [OF step]) simp
      with m(3) show "fst (m (contents db')) = Some (Err e)" by simp
    qed
    with m show "\<exists>m e. a = Err e \<and> map_of ms k = Some m \<and>
                 (leaves_open m \<longrightarrow> fst (m (contents db')) = Some (Err e))"
      by blast
  qed
  have "filter ((<) w) (k # keys) = [] @ k # filter ((<) w) keys"
    using assms(1) by simp
  with f i b' have 2: "\<exists>k' rest. filter ((<) w) (k # keys) = [] @ k' # rest \<and>
            tail \<in> failed_tx_events k' \<and> (faults db = [] \<longrightarrow> invoked tail = [k']) \<and>
            (EvBody k' False \<in> set tail \<longrightarrow>
               (\<exists>m e. a = Err e \<and> map_of ms k' = Some m \<and>
                  (leaves_open m \<longrightarrow> fst (m (contents db')) = Some (Err e))))"
    by blast
  have 3: "(\<forall>(k, m) \<in> set ms. keeps_records m) \<longrightarrow>
        (\<exists>new. records (contents db') = records (contents db) @ new \<and> map fst new = []) \<and>
        (schema_migrations (contents db) \<noteq> None \<longrightarrow> schema_migrations (contents db') \<noteq> None)"
  proof
    assume fr: "\<forall>(k, m) \<in> set ms. keeps_records m"
    have "schema_migrations (contents db') = schema_migrations (contents db)"
    proof (rule step_fail_records [OF step])
      fix m assume "map_of ms k = Some m"
      then have "(k, m) \<in> set ms" by (rule map_of_SomeD)
      with fr show "keeps_records m" by auto
    qed
    then show "(\<exists>new. records (contents db') = records (contents db) @ new \<and> map fst new = []) \<and>
        (schema_migrations (contents db) \<noteq> None \<longrightarrow> schema_migrations (contents db') \<noteq> None)"
      by (simp add: records_def)
  qed
  have "loop_outcome ms w (k # keys) db (Some a) db' [] tail"
    unfolding loop_outcome_def option.case using 1 2 3 by simp
  then show ?thesis ..
qed

lemma loop_outcome_ok:
  assumes "\<not> k \<le> w" and step: "withTx db (apply_migration ms k) = (Inr u, db1)"
    and rest: "loop_outcome ms w keys db1 r db' done tail"
  shows "loop_outcome ms w (k # keys) db r db' (k # done) tail"
proof -
  from step_ok [OF step] obtain m d rows where
    c1: "contents db1 = d\<lparr>schema_migrations := Some (rows @ [(k, clock db (ticks db))])\<rparr>"
    and t1: "trace db1 = trace db @ tx_events k"
    and f1: "faults db = [] \<longrightarrow> faults db1 = []"
    by blast
  from rest have t: "trace db' = trace db1 @ concat (map tx_events done) @ tail"
    and c: "case r of
        None \<Rightarrow> tail = [] \<and> filter ((<) w) keys = done
      | Some a \<Rightarrow>
          \<exists>k rest. filter ((<) w) keys = done @ k # rest \<and> tail \<in> failed_tx_events k \<and>
            (faults db1 = [] \<longrightarrow> invoked tail = [k]) \<and>
            (EvBody k False \<in> set tail \<longrightarrow>
               (\<exists>m e. a = Err e \<and> map_of ms k = Some m \<and>
                  (leaves_open m \<longrightarrow> fst (m (contents db')) = Some (Err e))))"
    and l: "r = None \<longrightarrow>
        (if done = [] then db' = db1
         else schema_migrations (contents db') \<noteq> None \<and>
              last done \<in> set (versions (contents db')))"
    and n: "(\<forall>(k, m) \<in> set ms. keeps_records m) \<longrightarrow>
        (\<exists>new. records (contents db') = records (contents db1) @ new \<and> map fst new = done) \<and>
        (schema_migrations (contents db1) \<noteq> None \<longrightarrow> schema_migrations (contents db') \<noteq> None)"
    unfolding loop_outcome_def by simp_all
  have 1: "trace db' = trace db @ concat (map tx_events (k # done)) @ tail"
    using t t1 by simp
  have 2: "case r of
        None \<Rightarrow> tail = [] \<and> filter ((<) w) (k # keys) = k # done
      | Some a \<Rightarrow>
          \<exists>k' rest. filter ((<) w) (k # keys) = (k # done) @ k' # rest \<and>
            tail \<in> failed_tx_events k' \<and> (faults db = [] \<longrightarrow> invoked tail = [k']) \<and>
            (EvBody k' False \<in> set tail \<longrightarrow>
               (\<exists>m e. a = Err e \<and> map_of ms k' = Some m \<and>
                  (leaves_open m \<longrightarrow> fst (m (contents db')) = Some (Err e))))"
  proof (cases r)
    case None
    with c assms(1) show ?thesis by simp
  next
    case (Some a)
    with c obtain k' rest' where
      k': "filter ((<) w) keys = done @ k' # rest'" "tail \<in> failed_tx_events k'"
        "faults db1 = [] \<longrightarrow> invoked tail = [k']"
        "EvBody k' False \<in> set tail \<longrightarrow>
               (\<exists>m e. a = Err e \<and> map_of ms k' = Some m \<and>
                  (leaves_open m \<longrightarrow> fst (m (contents db')) = Some (Err e)))"
      by auto
    have "filter ((<) w) (k # keys) = (k # done) @ k' # rest'"
      using k'(1) assms(1) by simp
    moreover have "faults db = [] \<longrightarrow> invoked tail = [k']"
      using k'(3) f1 by simp
    ultimately have "\<exists>k' rest. filter ((<) w) (k # keys) = (k # done) @ k' # rest \<and>
            tail \<in> failed_tx_events k' \<and> (faults db = [] \<longrightarrow> invoked tail = [k']) \<and>
            (EvBody k' False \<in> set tail \<longrightarrow>
               (\<exists>m e. a = Err e \<and> map_of ms k' = Some m \<and>
                  (leaves_open m \<longrightarrow> fst (m (contents db')) = Some (Err e))))"
      using k'(2,4) by blast
    then show ?thesis unfolding Some option.case .
  qed
  have 3: "r = None \<longrightarrow>
        (if k # done = [] then db' = db
         else schema_migrations (contents db') \<noteq> None \<and>
              last (k # done) \<in> set (versions (contents db')))"
    using l c1 by (cases "done = []") (auto simp: versions_def records_def)
  have 4: "(\<forall>(k, m) \<in> set ms. keeps_records m) \<longrightarrow>
        (\<exists>new. records (contents db') = records (contents db) @ new \<and> map fst new = k # done) \<and>
        (schema_migrations (contents db) \<noteq> None \<longrightarrow> schema_migrations (contents db') \<noteq> None)"
  proof
    assume fr: "\<forall>(k, m) \<in> set ms. keeps_records m"
    with n obtain new where
      new: "records (contents db') = records (contents db1) @ new" "map fst new = done"
      and ex: "schema_migrations (contents db1) \<noteq> None \<longrightarrow>
                 schema_migrations (contents db') \<noteq> None"
      by blast
    note s = step_ok_records [OF step fr]
    from s new
    have "records (contents db') = records (contents db) @ ((k, clock db (ticks db)) # new)"
      by simp
    moreover have "map fst ((k, clock db (ticks db)) # new) = k # done"
      using new by simp
    ultimately have "\<exists>new. records (contents db') = records (contents db) @ new \<and>
                       map fst new = k # done"
      by (intro exI [of _ "(k, clock db (ticks db)) # new"] conjI)
    moreover from s ex have "schema_migrations (contents db') \<noteq> None" by simp
    ultimately show "(\<exists>new. records (contents db') = records (contents db) @ new \<and>
                         map fst new = k # done) \<and>
        (schema_migrations (contents db) \<noteq> None \<longrightarrow> schema_migrations (contents db') \<noteq> None)"
      by simp
  qed
  show ?thesis unfolding loop_outcome_def using 1 2 3 4 by (intro conjI)
qed

lemma loop_outcome:
  assumes "apply_outstanding ms w keys db = (r, db')"
  shows "\<exists>done tail. loop_outcome ms w keys db r db' done tail"
  using assms
proof (induction keys arbitrary: db)
  case Nil
  then have "r = None" "db' = db" by simp_all
  with loop_outcome_Nil show ?case by blast
next
  case (Cons k keys)
  show ?case
  proof (cases "k \<le> w")
    case True
    with Cons.prems have "apply_outstanding ms w keys db = (r, db')" by simp
    from Cons.IH [OF this] loop_outcome_skip [OF True] show ?thesis by blast
  next
    case False
    obtain res db1 where step: "withTx db (apply_migration ms k) = (res, db1)"
      by (cases "withTx db (apply_migration ms k)")
    show ?thesis
    proof (cases res)
      case (Inl a)
      with step False Cons.prems have "r = Some a" "db' = db1" by simp_all
      with loop_outcome_fail [OF False step [unfolded Inl]] show ?thesis by blast
    next
      case (Inr u)
      with step False Cons.prems have "apply_outstanding ms w keys db1 = (r, db')" by simp
      from Cons.IH [OF this] loop_outcome_ok [OF False step [unfolded Inr]] show ?thesis
        by blast
    qed
  qed
qed

section \<open>Before the loop: the watermark and the bootstrap\<close>

lemmas read_defs = withTx_def db_Begin_def tx_Commit_def tx_Rollback_def emit_def
  next_fault_def select_maxApplied_def select_max_def

lemma no_ErrNoRows_suffix:
  "no_ErrNoRows fs \<Longrightarrow> suffix fs' fs \<Longrightarrow> no_ErrNoRows fs'"
  by (auto simp: no_ErrNoRows_def suffix_def)

lemma prelude_trans:
  "prelude db db1 pre \<Longrightarrow> prelude db1 db2 pre' \<Longrightarrow> prelude db db2 (pre @ pre')"
  by (auto simp: prelude_def intro: suffix_order.trans)

lemma undefined_table_error_not_ErrNoRows [simp]:
  "\<not> errors_Is (undefined_table_error d) ErrNoRows"
  by (cases d) simp_all

lemma read_ok:
  assumes "withTx (emit EvMigrate db) select_maxApplied = (Inr w, db1)"
  shows "prelude db db1 [EvMigrate, EvBegin, EvSelectMax, EvCommit] \<and> contents db1 = contents db \<and>
         lost_creates db1 = lost_creates db \<and>
         (no_ErrNoRows (faults db) \<longrightarrow>
            schema_migrations (contents db) \<noteq> None \<and>
            w = coalesce (sql_max (versions (contents db))) (- 1))"
  using assms
  by (auto simp: read_defs prelude_def suffix_def no_ErrNoRows_def records_def versions_def
      split: op_splits)

lemma read_fail:
  assumes "withTx (emit EvMigrate db) select_maxApplied = (Inl a, db1)"
  shows "\<exists>e pre. a = Err e \<and> prelude db db1 (EvMigrate # pre) \<and> EvMigrate \<notin> set pre \<and>
           contents db1 = contents db \<and> lost_creates db1 = lost_creates db"
  using assms
  by (auto simp: read_defs prelude_def suffix_def split: op_splits)

lemma init_shape:
  assumes "initializeSchemaMigrations db = (ro, db1)"
  shows "prelude db db1 [EvCreateTable] \<and>
         (case ro of
            None \<Rightarrow> schema_migrations (contents db) = None \<and>
                    (if 0 < lost_creates db
                     then contents db1 = contents db \<and> lost_creates db1 = lost_creates db - 1
                     else contents db1 = (contents db)\<lparr>schema_migrations := Some []\<rparr> \<and>
                          lost_creates db1 = 0)
          | Some e \<Rightarrow> contents db1 = contents db \<and> lost_creates db1 = lost_creates db)"
  using assms
  by (auto simp: initializeSchemaMigrations_def emit_def next_fault_def prelude_def suffix_def
      records_def
      split: list.splits option.splits sum.splits if_splits prod.splits)

lemma Migrate_once:
  assumes "Migrate db ms = (r, db')"
  shows "(\<exists>pre db1. prelude db db1 pre \<and> count_list pre EvMigrate = 1 \<and>
            contents db1 = contents db \<and>
            ((\<exists>e. r = Some (Err e) \<and> db' = db1) \<or>
             (\<exists>w. apply_outstanding ms w (sort (map fst ms)) db1 = (r, db') \<and>
                  (no_ErrNoRows (faults db) \<longrightarrow>
                     schema_migrations (contents db) \<noteq> None \<and>
                     w = coalesce (sql_max (versions (contents db))) (- 1))))) \<or>
         (\<exists>pre db2. prelude db db2 pre \<and> count_list pre EvMigrate = 1 \<and>
            schema_migrations (contents db) = None \<and>
            (if 0 < lost_creates db
             then contents db2 = contents db \<and> lost_creates db2 = lost_creates db - 1
             else contents db2 = (contents db)\<lparr>schema_migrations := Some []\<rparr> \<and>
                  lost_creates db2 = 0) \<and>
            Migrate db2 ms = (r, db'))"
proof -
  obtain res db1 where rd: "withTx (emit EvMigrate db) select_maxApplied = (res, db1)"
    by (cases "withTx (emit EvMigrate db) select_maxApplied")
  show ?thesis
  proof (cases res)
    case (Inr w)
    with rd assms have "apply_outstanding ms w (sort (map fst ms)) db1 = (r, db')"
      by (simp add: Migrate.simps [of db ms])
    moreover have "count_list [EvMigrate, EvBegin, EvSelectMax, EvCommit] EvMigrate = 1"
      by simp
    ultimately show ?thesis using read_ok [OF rd [unfolded Inr]] by blast
  next
    case (Inl a)
    from read_fail [OF rd [unfolded Inl]] obtain e pre where
      a: "a = Err e" and
      pre: "prelude db db1 (EvMigrate # pre)" "EvMigrate \<notin> set pre" "contents db1 = contents db"
        "lost_creates db1 = lost_creates db"
      by blast
    then have cnt: "count_list (EvMigrate # pre) EvMigrate = 1" by simp
    show ?thesis
    proof (cases "errors_Is e errMissingSchemaMigration")
      case False
      with rd Inl a assms have "r = Some (Err e)" "db' = db1"
        by (simp_all add: Migrate.simps [of db ms])
      with pre cnt show ?thesis by blast
    next
      case True
      obtain ro db2 where ini: "initializeSchemaMigrations db1 = (ro, db2)"
        by (cases "initializeSchemaMigrations db1")
      from init_shape [OF ini] have p2: "prelude db1 db2 [EvCreateTable]" by simp
      have p: "prelude db db2 ((EvMigrate # pre) @ [EvCreateTable])"
        by (rule prelude_trans [OF pre(1) p2])
      have c: "count_list ((EvMigrate # pre) @ [EvCreateTable]) EvMigrate = 1"
        using pre(2) by simp
      show ?thesis
      proof (cases ro)
        case None
        with rd Inl a True ini assms have "Migrate db2 ms = (r, db')"
          by (simp add: Migrate.simps [of db ms])
        moreover from init_shape [OF ini] None pre(3,4)
        have "schema_migrations (contents db) = None"
          "if 0 < lost_creates db
             then contents db2 = contents db \<and> lost_creates db2 = lost_creates db - 1
             else contents db2 = (contents db)\<lparr>schema_migrations := Some []\<rparr> \<and>
                  lost_creates db2 = 0"
          by simp_all
        ultimately show ?thesis using p c by blast
      next
        case (Some e')
        with rd Inl a True ini assms
        have "r = Some (Err (Wrap ''failed to initialize schema migrations'' e'))" "db' = db2"
          by (simp_all add: Migrate.simps [of db ms])
        moreover from init_shape [OF ini] Some pre(3) have "contents db2 = contents db"
          by simp
        ultimately show ?thesis using p c by blast
      qed
    qed
  qed
qed

lemma Migrate_shape:
  assumes "Migrate db ms = (r, db')"
  shows "\<exists>pre db1. prelude db db1 pre \<and>
           (schema_migrations (contents db) \<noteq> None \<longrightarrow> count_list pre EvMigrate = 1) \<and>
           (lost_creates db = 0 \<longrightarrow> count_list pre EvMigrate \<le> 2) \<and>
           ((\<exists>e. r = Some (Err e) \<and> db' = db1) \<or>
            (\<exists>w. apply_outstanding ms w (sort (map fst ms)) db1 = (r, db') \<and>
                 (no_ErrNoRows (faults db) \<longrightarrow>
                    schema_migrations (contents db1) \<noteq> None \<and>
                    w = coalesce (sql_max (versions (contents db1))) (- 1))))"
  using assms
proof (induction db rule: measure_induct_rule [where f = retries_left])
  case (less db)
  from Migrate_once [OF less.prems] show ?case
  proof (elim disjE exE conjE)
    fix pre db1 e
    assume "prelude db db1 pre" "count_list pre EvMigrate = 1" "r = Some (Err e)" "db' = db1"
    then show ?thesis by (intro exI [of _ pre] exI [of _ db1]) simp
  next
    fix pre db1 w
    assume "prelude db db1 pre" "count_list pre EvMigrate = 1" "contents db1 = contents db"
      "apply_outstanding ms w (sort (map fst ms)) db1 = (r, db')"
      "no_ErrNoRows (faults db) \<longrightarrow>
         schema_migrations (contents db) \<noteq> None \<and>
         w = coalesce (sql_max (versions (contents db))) (- 1)"
    then show ?thesis
      by (intro exI [of _ pre] exI [of _ db1]) (auto simp: versions_def records_def)
  next
    fix pre db2
    assume p: "prelude db db2 pre" and c: "count_list pre EvMigrate = 1"
      and missing: "schema_migrations (contents db) = None"
      and tbl: "if 0 < lost_creates db
             then contents db2 = contents db \<and> lost_creates db2 = lost_creates db - 1
             else contents db2 = (contents db)\<lparr>schema_migrations := Some []\<rparr> \<and>
                  lost_creates db2 = 0"
      and again: "Migrate db2 ms = (r, db')"
    from p have suf: "suffix (faults db2) (faults db)" by (simp add: prelude_def)
    have "retries_left db2 < retries_left db"
      using tbl missing by (auto simp: retries_left_def split: if_splits)
    from less.IH [OF this again] obtain pre' db1 where
      p': "prelude db2 db1 pre'"
      and c1: "schema_migrations (contents db2) \<noteq> None \<longrightarrow> count_list pre' EvMigrate = 1"
      and out: "(\<exists>e. r = Some (Err e) \<and> db' = db1) \<or>
             (\<exists>w. apply_outstanding ms w (sort (map fst ms)) db1 = (r, db') \<and>
                  (no_ErrNoRows (faults db2) \<longrightarrow>
                     schema_migrations (contents db1) \<noteq> None \<and>
                     w = coalesce (sql_max (versions (contents db1))) (- 1)))"
      by blast
    have 1: "prelude db db1 (pre @ pre')" by (rule prelude_trans [OF p p'])
    have 2: "schema_migrations (contents db) \<noteq> None \<longrightarrow> count_list (pre @ pre') EvMigrate = 1"
      using missing by simp
    have 3: "lost_creates db = 0 \<longrightarrow> count_list (pre @ pre') EvMigrate \<le> 2"
      using c c1 tbl by (auto split: if_splits)
    have 4: "(\<exists>e. r = Some (Err e) \<and> db' = db1) \<or>
            (\<exists>w. apply_outstanding ms w (sort (map fst ms)) db1 = (r, db') \<and>
                 (no_ErrNoRows (faults db) \<longrightarrow>
                    schema_migrations (contents db1) \<noteq> None \<and>
                    w = coalesce (sql_max (versions (contents db1))) (- 1)))"
      using out no_ErrNoRows_suffix [OF _ suf] by auto
    show ?thesis
      by (rule exI [of _ "pre @ pre'"], rule exI [of _ db1], intro conjI)
        (fact 1, fact 2, fact 3, fact 4)
  qed
qed

section \<open>Reading the trace\<close>

lemma events_since_append [simp]:
  "trace db' = trace db @ evs \<Longrightarrow> events_since db db' = evs"
  by (simp add: events_since_def)

lemma invoked_append [simp]: "invoked (xs @ ys) = invoked xs @ invoked ys"
  by (induction xs rule: invoked.induct) simp_all

lemma invoked_tx_events [simp]: "invoked (concat (map tx_events ds)) = ds"
  by (induction ds) (simp_all add: tx_events_def)

lemma invoked_prelude:
  "set pre \<subseteq> {EvMigrate, EvBegin, EvSelectMax, EvCreateTable, EvCommit, EvRollback} \<Longrightarrow>
     invoked pre = []"
  by (induction pre rule: invoked.induct) simp_all

lemma invoked_failed_tx:
  "tail \<in> failed_tx_events k \<Longrightarrow> invoked tail = [] \<or> invoked tail = [k]"
  by (auto simp: failed_tx_events_def)

lemma committed_prelude:
  "\<forall>k. EvLog k \<notin> set pre \<Longrightarrow> committed (pre @ evs) = committed evs"
proof (induction pre)
  case Nil
  then show ?case by simp
next
  case (Cons e pre)
  then have IH: "committed (pre @ evs) = committed evs" by simp
  from Cons.prems have e: "\<forall>k. e \<noteq> EvLog k" by auto
  show ?case
  proof (cases "pre @ evs")
    case Nil
    then show ?thesis by simp
  next
    case (Cons e' es)
    with e IH show ?thesis by (cases e) simp_all
  qed
qed

lemma committed_tx_events [simp]:
  "committed (concat (map tx_events ds) @ evs) = ds @ committed evs"
  by (induction ds) (simp_all add: tx_events_def)

lemma committed_failed_tx:
  "tail \<in> failed_tx_events k \<Longrightarrow> committed tail = []"
  by (auto simp: failed_tx_events_def)

lemma count_tx_events [simp]: "count_list (concat (map tx_events ds)) EvMigrate = 0"
  by (induction ds) (simp_all add: tx_events_def)

lemma count_failed_tx:
  "tail \<in> failed_tx_events k \<Longrightarrow> count_list tail EvMigrate = 0"
  by (auto simp: failed_tx_events_def)

section \<open>A whole run\<close>

lemma Migrate_run:
  assumes "Migrate db ms = (r, db')"
  shows "\<exists>pre db1 w done tail.
           prelude db db1 pre \<and>
           (schema_migrations (contents db) \<noteq> None \<longrightarrow> count_list pre EvMigrate = 1) \<and>
           (lost_creates db = 0 \<longrightarrow> count_list pre EvMigrate \<le> 2) \<and>
           events_since db db' = pre @ concat (map tx_events done) @ tail \<and>
           ((\<exists>e. r = Some (Err e) \<and> db' = db1 \<and> done = [] \<and> tail = []) \<or>
            (loop_outcome ms w (sort (map fst ms)) db1 r db' done tail \<and>
             (no_ErrNoRows (faults db) \<longrightarrow>
                schema_migrations (contents db1) \<noteq> None \<and>
                w = coalesce (sql_max (versions (contents db1))) (- 1))))"
proof -
  from Migrate_shape [OF assms] obtain pre db1 where
    p: "prelude db db1 pre"
    and c1: "schema_migrations (contents db) \<noteq> None \<longrightarrow> count_list pre EvMigrate = 1"
    and c: "lost_creates db = 0 \<longrightarrow> count_list pre EvMigrate \<le> 2"
    and out: "(\<exists>e. r = Some (Err e) \<and> db' = db1) \<or>
            (\<exists>w. apply_outstanding ms w (sort (map fst ms)) db1 = (r, db') \<and>
                 (no_ErrNoRows (faults db) \<longrightarrow>
                    schema_migrations (contents db1) \<noteq> None \<and>
                    w = coalesce (sql_max (versions (contents db1))) (- 1)))"
    by (elim exE conjE) (rule that)
  from p have t1: "trace db1 = trace db @ pre" by (simp add: prelude_def)
  from out show ?thesis
  proof (elim disjE exE conjE)
    fix e
    assume r: "r = Some (Err e)" and d: "db' = db1"
    have "events_since db db' = pre @ concat (map tx_events []) @ []"
      using t1 d by simp
    then show ?thesis
      apply (intro exI [of _ pre])
      apply (intro exI [of _ db1])
      apply (rule exI, rule exI [of _ "[]"], rule exI [of _ "[]"])
      using p c c1 r d apply simp
      done
  next
    fix w
    assume loop: "apply_outstanding ms w (sort (map fst ms)) db1 = (r, db')"
      and w: "no_ErrNoRows (faults db) \<longrightarrow>
                schema_migrations (contents db1) \<noteq> None \<and>
                w = coalesce (sql_max (versions (contents db1))) (- 1)"
    from loop_outcome [OF loop] obtain "done" tail where
      L: "loop_outcome ms w (sort (map fst ms)) db1 r db' done tail" by blast
    then have "trace db' = trace db @ pre @ concat (map tx_events done) @ tail"
      using t1 by (simp add: loop_outcome_def)
    then have "events_since db db' = pre @ concat (map tx_events done) @ tail"
      by simp
    then show ?thesis
      apply (intro exI [of _ pre])
      apply (intro exI [of _ db1])
      apply (rule exI [of _ w], rule exI [of _ "done"], rule exI [of _ tail])
      using p c c1 L w apply simp
      done
  qed
qed

lemma invoked_run:
  assumes "prelude db db1 pre"
  shows "invoked (pre @ concat (map tx_events done) @ tail) = done @ invoked tail"
  using assms by (simp add: prelude_def invoked_prelude)

lemma committed_run:
  assumes "prelude db db1 pre"
  shows "committed (pre @ concat (map tx_events done) @ tail) = done @ committed tail"
proof -
  from assms have "\<forall>k. EvLog k \<notin> set pre" by (auto simp: prelude_def)
  then show ?thesis by (simp add: committed_prelude)
qed

lemma apply_outstanding_cong:
  assumes "map_of ms' = map_of ms"
  shows "apply_outstanding ms' w keys db = apply_outstanding ms w keys db"
proof -
  have eq: "apply_migration ms' = apply_migration ms"
    using assms by (simp add: apply_migration_def fun_eq_iff)
  show ?thesis
  proof (induction keys arbitrary: db)
    case Nil
    show ?case by simp
  next
    case (Cons k keys)
    show ?case by (simp add: eq Cons.IH split: prod.splits sum.splits)
  qed
qed

lemma Migrate_cong:
  assumes "map_of ms' = map_of ms" and "sort (map fst ms') = sort (map fst ms)"
  shows "Migrate db ms' = Migrate db ms"
proof (induction db rule: measure_induct_rule [where f = retries_left])
  case (less db)
  obtain res db1 where rd: "withTx (emit EvMigrate db) select_maxApplied = (res, db1)"
    by (cases "withTx (emit EvMigrate db) select_maxApplied")
  show ?case
  proof (cases res)
    case (Inr w)
    with rd assms(2) show ?thesis
      by (simp add: Migrate.simps [of db ms'] Migrate.simps [of db ms]
          apply_outstanding_cong [OF assms(1)])
  next
    case (Inl a)
    from read_fail [OF rd [unfolded Inl]] obtain e where a: "a = Err e" by blast
    obtain ro db2 where ini: "initializeSchemaMigrations db1 = (ro, db2)"
      by (cases "initializeSchemaMigrations db1")
    show ?thesis
    proof (cases "errors_Is e errMissingSchemaMigration \<and> ro = None")
      case True
      with ini have "retries_left db2 < retries_left db"
        by (intro retry_decreases [OF rd]) simp
      from less.IH [OF this] True rd Inl a ini show ?thesis
        by (simp add: Migrate.simps [of db ms'] Migrate.simps [of db ms])
    next
      case False
      with rd Inl a ini show ?thesis
        by (auto simp: Migrate.simps [of db ms'] Migrate.simps [of db ms]
            split: option.splits)
    qed
  qed
qed

lemma outstanding_strictly_sorted:
  assumes "distinct keys"
  shows "sorted_wrt (<) (filter ((<) w) (sort keys))"
proof -
  have "sorted_wrt (<) (sort keys)" using assms by (simp add: strict_sorted_iff)
  then show ?thesis by (rule sorted_wrt_filter)
qed

lemma perm_same_map:
  assumes "distinct (map fst ms)" and "mset ms' = mset ms"
  shows "map_of ms' = map_of ms \<and> sort (map fst ms') = sort (map fst ms)"
proof -
  have m: "mset (map fst ms') = mset (map fst ms)"
    using assms(2) by simp
  have "sort (map fst ms') = sort (map fst ms)"
    by (rule properties_for_sort) (simp_all add: assms(2))
  moreover have "distinct (map fst ms')"
    using assms(1) m mset_eq_imp_distinct_iff by blast
  moreover have "set ms' = set ms" using assms(2) by (rule mset_eq_setD)
  ultimately show ?thesis
    using assms(1) by (simp add: map_of_inject_set)
qed

lemma count_loop_outcome:
  assumes "loop_outcome ms w keys db r db' done tail"
  shows "count_list (concat (map tx_events done) @ tail) EvMigrate = 0"
proof (cases r)
  case None
  with assms show ?thesis by (simp add: loop_outcome_def)
next
  case (Some e)
  with assms obtain k where "tail \<in> failed_tx_events k"
    by (auto simp: loop_outcome_def)
  from count_failed_tx [OF this] show ?thesis by simp
qed

lemma run_count:
  assumes "Migrate db ms = (r, db')"
  shows "(schema_migrations (contents db) \<noteq> None \<longrightarrow>
            count_list (events_since db db') EvMigrate = 1) \<and>
         (lost_creates db = 0 \<longrightarrow> count_list (events_since db db') EvMigrate \<le> 2)"
proof -
  from Migrate_run [OF assms] obtain pre db1 w "done" tail where
    c1: "schema_migrations (contents db) \<noteq> None \<longrightarrow> count_list pre EvMigrate = 1"
    and c: "lost_creates db = 0 \<longrightarrow> count_list pre EvMigrate \<le> 2"
    and evs: "events_since db db' = pre @ concat (map tx_events done) @ tail"
    and out: "(\<exists>e. r = Some (Err e) \<and> db' = db1 \<and> done = [] \<and> tail = []) \<or>
            loop_outcome ms w (sort (map fst ms)) db1 r db' done tail"
    by (elim exE conjE) (rule that, auto)
  from out have "count_list (concat (map tx_events done) @ tail) EvMigrate = 0"
    using count_loop_outcome by auto
  with c c1 show ?thesis unfolding evs by simp
qed

lemma missing_not_driver_error:
  "errors_Is e errMissingSchemaMigration \<Longrightarrow> errors_As_pq e = None \<and> \<not> errors_As_sqlite3 e"
  by (induction e) auto

lemma select_failure:
  assumes "db_Begin (emit EvMigrate db) = (Inr tx, db1)"
    and "select_max tx db1 = (Inl e, db2)"
    and "\<not> errors_Is e ErrNoRows"
  shows "withTx (emit EvMigrate db) select_maxApplied =
           (case isUndefinedTable e of
              Inl err2 \<Rightarrow> Inl (Err (Wrap ''failed to parse error'' err2))
            | Inr undefined_table \<Rightarrow>
                if undefined_table then Inl (Err errMissingSchemaMigration)
                else Inl (Err (Wrap ''failed to select max applied migration'' e)),
            tx_Rollback db2) \<and>
         contents (tx_Rollback db2) = contents db \<and>
         events_since db (tx_Rollback db2) = [EvMigrate, EvBegin, EvSelectMax, EvRollback]"
  using assms
  by (auto simp: withTx_def select_maxApplied_def db_Begin_def select_max_def tx_Rollback_def
      emit_def next_fault_def events_since_def
      split: sum.splits list.splits option.splits if_splits)

lemma sql_max_None [simp]: "sql_max vs = None \<longleftrightarrow> vs = []"
  by (cases vs) (simp_all split: option.splits)

lemma sql_max_ge: "k \<in> set vs \<Longrightarrow> k \<le> coalesce (sql_max vs) d"
  by (induction vs) (auto simp: coalesce_def split: option.splits)

lemma sql_max_Max: "vs \<noteq> [] \<Longrightarrow> sql_max vs = Some (Max (set vs))"
proof (induction vs)
  case Nil
  then show ?case by simp
next
  case (Cons v vs)
  then show ?case by (cases "vs = []") (auto simp: max_def Max_insert split: option.splits)
qed

lemma watermark_sql: "coalesce (sql_max (versions d)) (- 1) = watermark d"
  by (cases "versions d = []") (simp_all add: watermark_def coalesce_def sql_max_Max)

lemma failed_body:
  "tail \<in> failed_tx_events k \<Longrightarrow> EvBody v False \<in> set tail \<Longrightarrow>
     v = k \<and> tail = [EvBegin, EvBody k False, EvRollback]"
  by (auto simp: failed_tx_events_def)

lemma no_failed_body_in_tx_events: "EvBody v False \<notin> set (concat (map tx_events ds))"
  by (auto simp: tx_events_def)

lemma no_body_in_prelude: "prelude db db1 pre \<Longrightarrow> EvBody v ok \<notin> set pre"
  by (auto simp: prelude_def)

lemma run_records:
  assumes "Migrate db ms = (r, db')" and "\<forall>(k, m) \<in> set ms. keeps_records m"
  shows "\<exists>pre tail new.
           events_since db db' = pre @ concat (map tx_events (committed (events_since db db'))) @ tail \<and>
           (\<forall>k. EvLog k \<notin> set pre) \<and> committed tail = [] \<and>
           records (contents db') = records (contents db) @ new \<and>
           map fst new = committed (events_since db db')"
proof -
  from Migrate_run [OF assms(1)] obtain pre db1 w "done" tail where
    p: "prelude db db1 pre"
    and evs: "events_since db db' = pre @ concat (map tx_events done) @ tail"
    and out: "(\<exists>e. r = Some (Err e) \<and> db' = db1 \<and> done = [] \<and> tail = []) \<or>
            loop_outcome ms w (sort (map fst ms)) db1 r db' done tail"
    by blast
  from p have rec1: "records (contents db1) = records (contents db)"
    and nolog: "\<forall>k. EvLog k \<notin> set pre"
    by (auto simp: prelude_def)
  have "committed tail = [] \<and>
        (\<exists>new. records (contents db') = records (contents db) @ new \<and> map fst new = done)"
    using out
  proof
    assume "\<exists>e. r = Some (Err e) \<and> db' = db1 \<and> done = [] \<and> tail = []"
    with rec1 show ?thesis by auto
  next
    assume L: "loop_outcome ms w (sort (map fst ms)) db1 r db' done tail"
    have "committed tail = []"
    proof (cases r)
      case None
      with L show ?thesis by (simp add: loop_outcome_def)
    next
      case (Some e)
      with L obtain k where "tail \<in> failed_tx_events k" by (auto simp: loop_outcome_def)
      then show ?thesis by (rule committed_failed_tx)
    qed
    moreover from L assms(2) rec1
    have "\<exists>new. records (contents db') = records (contents db) @ new \<and> map fst new = done"
      by (simp add: loop_outcome_def)
    ultimately show ?thesis by simp
  qed
  then obtain new where t: "committed tail = []"
    and new: "records (contents db') = records (contents db) @ new" "map fst new = done"
    by blast
  have c: "committed (events_since db db') = done"
    unfolding evs using committed_run [OF p, of "done" tail] t by simp
  show ?thesis
    apply (rule exI [of _ pre], rule exI [of _ tail], rule exI [of _ new])
    using evs nolog t new c apply simp
    done
qed

lemma create_table_ok [simp]:
  "keeps_records (create_table name)" "leaves_open (create_table name)"
  by (simp_all add: keeps_records_def leaves_open_def create_table_def)

lemma failing_ok [simp]: "keeps_records (failing msg)" "leaves_open (failing msg)"
  by (simp_all add: keeps_records_def leaves_open_def failing_def)

lemma create_then_fail_ok [simp]:
  "keeps_records (create_then_fail name msg)" "leaves_open (create_then_fail name msg)"
  by (simp_all add: keeps_records_def leaves_open_def create_then_fail_def)

section \<open>A run when no call fails\<close>

lemma isUndefinedTable_undefined_table_error:
  "d \<noteq> OtherDriver \<Longrightarrow> isUndefinedTable (undefined_table_error d) = Inr True"
  by (cases d) (simp_all add: isUndefinedTable_def)

lemma read_healthy:
  assumes "faults db = []" and "schema_migrations (contents db) = Some rows"
  shows "withTx (emit EvMigrate db) select_maxApplied =
           (Inr (coalesce (sql_max (map fst rows)) (- 1)),
            db\<lparr>trace := trace db @ [EvMigrate, EvBegin, EvSelectMax, EvCommit]\<rparr>)"
  using assms by (simp add: read_defs)

lemma read_missing:
  assumes "faults db = []" and "schema_migrations (contents db) = None"
    and "driver db \<noteq> OtherDriver"
  shows "withTx (emit EvMigrate db) select_maxApplied =
           (Inl (Err errMissingSchemaMigration),
            db\<lparr>trace := trace db @ [EvMigrate, EvBegin, EvSelectMax, EvRollback]\<rparr>)"
  using assms by (simp add: read_defs isUndefinedTable_undefined_table_error)

lemma init_healthy:
  assumes "faults db = []" and "schema_migrations (contents db) = None"
  shows "\<exists>db2. initializeSchemaMigrations db = (None, db2) \<and> faults db2 = [] \<and>
           prelude db db2 [EvCreateTable] \<and> retries_left db2 < retries_left db \<and>
           (contents db2)\<lparr>schema_migrations := Some []\<rparr> =
             (contents db)\<lparr>schema_migrations := Some []\<rparr>"
  using assms
  by (simp add: initializeSchemaMigrations_def emit_def next_fault_def prelude_def
      records_def retries_left_def)

lemma Migrate_healthy:
  assumes "faults db = []"
    and "schema_migrations (contents db) \<noteq> None \<or> driver db \<noteq> OtherDriver"
  shows "\<exists>pre db1. prelude db db1 pre \<and> faults db1 = [] \<and>
           contents db1 = (contents db)\<lparr>schema_migrations := Some (records (contents db))\<rparr> \<and>
           Migrate db ms =
             apply_outstanding ms (coalesce (sql_max (versions (contents db))) (- 1))
               (sort (map fst ms)) db1"
  using assms
proof (induction db rule: measure_induct_rule [where f = retries_left])
  case (less db)
  show ?case
  proof (cases "schema_migrations (contents db)")
    case (Some rows)
    let ?db1 = "db\<lparr>trace := trace db @ [EvMigrate, EvBegin, EvSelectMax, EvCommit]\<rparr>"
    have "prelude db ?db1 [EvMigrate, EvBegin, EvSelectMax, EvCommit]"
      by (simp add: prelude_def)
    moreover have "faults ?db1 = []" using less.prems(1) by simp
    moreover have "contents ?db1 = (contents db)\<lparr>schema_migrations := Some (records (contents db))\<rparr>"
      using Some by (simp add: records_def)
    moreover have "Migrate db ms =
             apply_outstanding ms (coalesce (sql_max (versions (contents db))) (- 1))
               (sort (map fst ms)) ?db1"
      using Some by (simp add: Migrate.simps [of db ms] read_healthy [OF less.prems(1) Some]
          versions_def records_def)
    ultimately show ?thesis by blast
  next
    case None
    with less.prems(2) have drv: "driver db \<noteq> OtherDriver" by simp
    define db1 where "db1 = db\<lparr>trace := trace db @ [EvMigrate, EvBegin, EvSelectMax, EvRollback]\<rparr>"
    have f1: "faults db1 = []" and n1: "schema_migrations (contents db1) = None"
      and p1: "prelude db db1 [EvMigrate, EvBegin, EvSelectMax, EvRollback]"
      and m1: "retries_left db1 = retries_left db" and c1: "contents db1 = contents db"
      using less.prems(1) None by (simp_all add: db1_def prelude_def retries_left_def)
    have rd: "withTx (emit EvMigrate db) select_maxApplied = (Inl (Err errMissingSchemaMigration), db1)"
      unfolding db1_def by (rule read_missing [OF less.prems(1) None drv])
    from init_healthy [OF f1 n1] obtain db2 where
      ini: "initializeSchemaMigrations db1 = (None, db2)" and f2: "faults db2 = []"
      and p2: "prelude db1 db2 [EvCreateTable]" and m2: "retries_left db2 < retries_left db1"
      and c2: "(contents db2)\<lparr>schema_migrations := Some []\<rparr> =
                 (contents db1)\<lparr>schema_migrations := Some []\<rparr>"
      by blast
    from rd ini have again: "Migrate db ms = Migrate db2 ms"
      by (simp add: Migrate.simps [of db ms])
    have p: "prelude db db2 ([EvMigrate, EvBegin, EvSelectMax, EvRollback] @ [EvCreateTable])"
      by (rule prelude_trans [OF p1 p2])
    then have d2: "driver db2 = driver db" and r2: "records (contents db2) = records (contents db)"
      by (simp_all add: prelude_def)
    from m1 m2 have "retries_left db2 < retries_left db" by simp
    from less.IH [OF this f2] d2 drv obtain pre' db3 where
      p3: "prelude db2 db3 pre'" and f3: "faults db3 = []"
      and c3: "contents db3 = (contents db2)\<lparr>schema_migrations := Some (records (contents db2))\<rparr>"
      and run: "Migrate db2 ms =
             apply_outstanding ms (coalesce (sql_max (versions (contents db2))) (- 1))
               (sort (map fst ms)) db3"
      by auto
    from None have r0: "records (contents db) = []" by (simp add: records_def)
    have "prelude db db3 (([EvMigrate, EvBegin, EvSelectMax, EvRollback] @ [EvCreateTable]) @ pre')"
      by (rule prelude_trans [OF p p3])
    moreover have "contents db3 = (contents db)\<lparr>schema_migrations := Some (records (contents db))\<rparr>"
      using c3 c2 c1 r2 r0 by simp
    moreover have "Migrate db ms =
             apply_outstanding ms (coalesce (sql_max (versions (contents db))) (- 1))
               (sort (map fst ms)) db3"
      using again run r2 by (simp add: versions_def)
    ultimately show ?thesis using f3 by blast
  qed
qed

lemma loop_skip:
  "\<forall>k \<in> set keys. k \<le> w \<Longrightarrow> apply_outstanding ms w keys db = (None, db)"
  by (induction keys) simp_all

lemma records_update_same:
  "schema_migrations d \<noteq> None \<Longrightarrow> d\<lparr>schema_migrations := Some (records d)\<rparr> = d"
  by (auto simp: records_def)

lemma step_healthy:
  assumes "faults db = []" and "map_of ms k = Some m" and "m (contents db) = (None, d, StillOpen)"
    and "schema_migrations d = Some rows" and "k \<notin> fst ` set rows"
  shows "\<exists>db2. withTx db (apply_migration ms k) = (Inr (), db2) \<and> faults db2 = []"
  using assms by (simp add: op_defs Let_def)

lemma step_body_fails:
  assumes "faults db = []" and "map_of ms k = Some m" and "fst (m (contents db)) = Some a"
  shows "\<exists>db2 evs. withTx db (apply_migration ms k) = (Inl a, db2) \<and>
           trace db2 = trace db @ evs \<and> (EvBody k False \<in> set evs \<or> EvPanic k \<in> set evs)"
proof -
  obtain ret d e where md: "m (contents db) = (ret, d, e)" by (cases "m (contents db)")
  with assms(3) have "ret = Some a" by simp
  with md assms(1,2) show ?thesis
    by (cases a; cases e) (simp_all add: op_defs Let_def)
qed

lemma step_invokes:
  assumes "faults db = []" and "withTx db (apply_migration ms k) = (res, db2)"
  shows "\<exists>ev evs. trace db2 = trace db @ EvBegin # ev # evs \<and> invoked [ev] = [k]"
proof -
  define m where "m = (case map_of ms k of None \<Rightarrow> nil_Migration | Some m \<Rightarrow> m)"
  obtain ret d e where md: "m (contents db) = (ret, d, e)" by (cases "m (contents db)")
  show ?thesis
  proof (cases ret)
    case None
    with md assms show ?thesis
      unfolding m_def
      by (cases e)
        (auto simp: withTx_def db_Begin_def tx_Commit_def tx_Rollback_def emit_def
          next_fault_def insert_version_def apply_migration_def call_body_def Let_def
          split: option.splits if_splits)
  next
    case (Some a)
    with md assms show ?thesis
      unfolding m_def
      by (cases a; cases e)
        (auto simp: withTx_def db_Begin_def tx_Rollback_def emit_def
          next_fault_def apply_migration_def call_body_def Let_def)
  qed
qed

lemma trace_extends:
  assumes "Migrate db ms = (r, db')"
  shows "\<exists>evs. trace db' = trace db @ evs"
proof -
  from Migrate_run [OF assms] obtain pre db1 w "done" tail where
    p: "prelude db db1 pre"
    and out: "(\<exists>e. r = Some (Err e) \<and> db' = db1 \<and> done = [] \<and> tail = []) \<or>
            loop_outcome ms w (sort (map fst ms)) db1 r db' done tail"
    by (elim exE conjE) (rule that, auto)
  from p have "trace db1 = trace db @ pre" by (simp add: prelude_def)
  with out show ?thesis by (auto simp: loop_outcome_def)
qed

lemma init_lossy:
  assumes "faults db = []" and "schema_migrations (contents db) = None"
  shows "\<exists>db2. initializeSchemaMigrations db = (None, db2) \<and> faults db2 = [] \<and>
           driver db2 = driver db \<and> trace db2 = trace db @ [EvCreateTable] \<and>
           (if 0 < lost_creates db
            then schema_migrations (contents db2) = None \<and>
                 lost_creates db2 = lost_creates db - 1
            else schema_migrations (contents db2) \<noteq> None)"
  using assms by (simp add: initializeSchemaMigrations_def emit_def next_fault_def)

lemma healthy_bootstrap_entries:
  assumes "Migrate db ms = (r, db')"
  shows "faults db = [] \<Longrightarrow> driver db \<noteq> OtherDriver \<Longrightarrow> schema_migrations (contents db) = None \<Longrightarrow>
         count_list (events_since db db') EvMigrate = lost_creates db + 2"
  using assms
proof (induction db rule: measure_induct_rule [where f = retries_left])
  case (less db)
  define db1 where "db1 = db\<lparr>trace := trace db @ [EvMigrate, EvBegin, EvSelectMax, EvRollback]\<rparr>"
  have f1: "faults db1 = []" and n1: "schema_migrations (contents db1) = None"
    and l1: "lost_creates db1 = lost_creates db" and d1: "driver db1 = driver db"
    and t1: "trace db1 = trace db @ [EvMigrate, EvBegin, EvSelectMax, EvRollback]"
    using less.prems by (simp_all add: db1_def)
  have rd: "withTx (emit EvMigrate db) select_maxApplied = (Inl (Err errMissingSchemaMigration), db1)"
    unfolding db1_def by (rule read_missing [OF less.prems(1,3,2)])
  from init_lossy [OF f1 n1] obtain db2 where
    ini: "initializeSchemaMigrations db1 = (None, db2)" and f2: "faults db2 = []"
    and d2: "driver db2 = driver db1" and t2: "trace db2 = trace db1 @ [EvCreateTable]"
    and c2: "if 0 < lost_creates db1
            then schema_migrations (contents db2) = None \<and>
                 lost_creates db2 = lost_creates db1 - 1
            else schema_migrations (contents db2) \<noteq> None"
    by blast
  from rd ini less.prems(4) have again: "Migrate db2 ms = (r, db')"
    by (simp add: Migrate.simps [of db ms])
  from trace_extends [OF again] obtain evs where evs: "trace db' = trace db2 @ evs" by blast
  then have e2: "events_since db2 db' = evs" by simp
  from evs t1 t2
  have "events_since db db' = [EvMigrate, EvBegin, EvSelectMax, EvRollback, EvCreateTable] @ evs"
    by simp
  then have cnt: "count_list (events_since db db') EvMigrate = 1 + count_list evs EvMigrate"
    by simp
  have smaller: "retries_left db2 < retries_left db"
    by (rule retry_decreases [OF rd ini])
  show ?case
  proof (cases "0 < lost_creates db")
    case True
    with c2 l1 have "schema_migrations (contents db2) = None"
      "lost_creates db2 = lost_creates db - 1"
      by simp_all
    with less.IH [OF smaller f2 _ _ again] d1 d2 less.prems(2) e2 True cnt
    show ?thesis by simp
  next
    case False
    with c2 l1 have "schema_migrations (contents db2) \<noteq> None" by simp
    with run_count [OF again] e2 have "count_list evs EvMigrate = 1" by simp
    with cnt False show ?thesis by simp
  qed
qed

lemma run_healthy:
  assumes "Migrate db ms = (r, db')" and "faults db = []"
    and "schema_migrations (contents db) \<noteq> None \<or> driver db \<noteq> OtherDriver"
  shows "\<exists>pre db1 done tail. prelude db db1 pre \<and> faults db1 = [] \<and>
           contents db1 = (contents db)\<lparr>schema_migrations := Some (records (contents db))\<rparr> \<and>
           apply_outstanding ms (watermark (contents db)) (sort (map fst ms)) db1 = (r, db') \<and>
           events_since db db' = pre @ concat (map tx_events done) @ tail \<and>
           loop_outcome ms (watermark (contents db)) (sort (map fst ms)) db1 r db' done tail"
proof -
  from Migrate_healthy [OF assms(2,3), of ms] assms(1) obtain pre db1 where
    p: "prelude db db1 pre" and f: "faults db1 = []"
    and c: "contents db1 = (contents db)\<lparr>schema_migrations := Some (records (contents db))\<rparr>"
    and run: "apply_outstanding ms (watermark (contents db)) (sort (map fst ms)) db1 = (r, db')"
    by (auto simp: watermark_sql)
  from loop_outcome [OF run] obtain "done" tail where
    L: "loop_outcome ms (watermark (contents db)) (sort (map fst ms)) db1 r db' done tail"
    by blast
  from p have "trace db1 = trace db @ pre" by (simp add: prelude_def)
  with L have "trace db' = trace db @ pre @ concat (map tx_events done) @ tail"
    by (simp add: loop_outcome_def)
  then have "events_since db db' = pre @ concat (map tx_events done) @ tail" by simp
  with p f c run L show ?thesis by blast
qed

lemma loop_progress:
  assumes "\<forall>(k, m) \<in> set ms. keeps_records m \<and> leaves_open m"
    and "set keys \<subseteq> fst ` set ms" and "distinct keys"
  shows "faults db = [] \<Longrightarrow> schema_migrations (contents db) \<noteq> None \<Longrightarrow>
         \<forall>k \<in> set keys. k \<notin> set (versions (contents db)) \<Longrightarrow>
         apply_outstanding ms w keys db = (r, db') \<Longrightarrow>
         r = None \<or> (\<exists>v. EvBody v False \<in> set (events_since db db') \<or>
                        EvPanic v \<in> set (events_since db db'))"
  using assms(2,3)
proof (induction keys arbitrary: db)
  case Nil
  then show ?case by simp
next
  case (Cons k keys)
  from Cons.prems have sub: "set keys \<subseteq> fst ` set ms" and dist: "distinct keys"
    and knew: "k \<notin> set keys"
    by simp_all
  show ?case
  proof (cases "k \<le> w")
    case True
    with Cons.prems(4) have "apply_outstanding ms w keys db = (r, db')" by simp
    from Cons.IH [OF Cons.prems(1,2) _ this sub dist] Cons.prems(3) show ?thesis by simp
  next
    case False
    from Cons.prems(5) obtain m where m: "map_of ms k = Some m"
      by (cases "map_of ms k") (auto simp: map_of_eq_None_iff)
    then have "(k, m) \<in> set ms" by (rule map_of_SomeD)
    with assms(1) have km: "keeps_records m" and lo: "leaves_open m" by auto
    obtain ret d e where md: "m (contents db) = (ret, d, e)" by (cases "m (contents db)")
    from leaves_openD [OF lo md] have e: "e = StillOpen" .
    show ?thesis
    proof (cases ret)
      case (Some a)
      with md have "fst (m (contents db)) = Some a" by simp
      from step_body_fails [OF Cons.prems(1) m this] obtain db2 evs where
        step: "withTx db (apply_migration ms k) = (Inl a, db2)"
        and t: "trace db2 = trace db @ evs"
        and ev: "EvBody k False \<in> set evs \<or> EvPanic k \<in> set evs"
        by blast
      from step False Cons.prems(4) have "db' = db2" by simp
      with t have "events_since db db' = evs" by simp
      with ev show ?thesis by auto
    next
      case None
      with md e have b: "m (contents db) = (None, d, StillOpen)" by simp
      from keeps_recordsD [OF km b] have same: "schema_migrations d = schema_migrations (contents db)"
        by simp
      with Cons.prems(2) obtain rows where rows: "schema_migrations d = Some rows" by auto
      from same rows have "schema_migrations (contents db) = Some rows" by simp
      then have "versions (contents db) = map fst rows"
        by (simp add: versions_def records_def)
      with Cons.prems(3) have fresh_k: "k \<notin> fst ` set rows" by simp
      from step_healthy [OF Cons.prems(1) m b rows fresh_k] obtain db2 where
        step: "withTx db (apply_migration ms k) = (Inr (), db2)" and f2: "faults db2 = []"
        by blast
      from step_ok_records [OF step] assms(1)
      have r2: "records (contents db2) = records (contents db) @ [(k, clock db (ticks db))]"
        and t2: "schema_migrations (contents db2) \<noteq> None"
        by auto
      from r2 Cons.prems(3) knew have n2: "\<forall>k' \<in> set keys. k' \<notin> set (versions (contents db2))"
        by (auto simp: versions_def)
      from step False Cons.prems(4) have rest: "apply_outstanding ms w keys db2 = (r, db')"
        by simp
      from step_ok [OF step] have tr: "trace db2 = trace db @ tx_events k" by blast
      from loop_outcome [OF rest] obtain more where "trace db' = trace db2 @ more"
        by (auto simp: loop_outcome_def)
      with tr have "events_since db2 db' = more" "events_since db db' = tx_events k @ more"
        by simp_all
      with Cons.IH [OF f2 t2 n2 rest sub dist] show ?thesis by auto
    qed
  qed
qed

section \<open>Versions at or below the sentinel\<close>

lemma loop_filter:
  "apply_outstanding ms w (filter ((<) w) keys) db = apply_outstanding ms w keys db"
  by (induction keys arbitrary: db) (auto split: prod.splits sum.splits)

lemma apply_outstanding_cong_keys:
  assumes "\<forall>k \<in> set keys. map_of ms' k = map_of ms k"
  shows "apply_outstanding ms' w keys db = apply_outstanding ms w keys db"
  using assms
proof (induction keys arbitrary: db)
  case Nil
  show ?case by simp
next
  case (Cons k keys)
  then have "apply_migration ms' k = apply_migration ms k"
    by (simp add: apply_migration_def fun_eq_iff)
  with Cons show ?case by (simp split: prod.splits sum.splits)
qed

lemma map_of_nonneg:
  "0 \<le> k \<Longrightarrow> map_of (filter (\<lambda>(k, m). 0 \<le> k) ms) k = map_of ms k"
  by (induction ms) auto

lemma loop_nonneg:
  "apply_outstanding (filter (\<lambda>(k, m). 0 \<le> k) ms) (- 1)
     (sort (map fst (filter (\<lambda>(k, m). 0 \<le> k) ms))) db =
   apply_outstanding ms (- 1) (sort (map fst ms)) db"
proof -
  let ?ms' = "filter (\<lambda>(k, m). 0 \<le> k) ms"
  have "map fst ?ms' = filter ((<) (- 1)) (map fst ms)"
    by (induction ms) auto
  then have keys: "sort (map fst ?ms') = filter ((<) (- 1)) (sort (map fst ms))"
    by (simp add: filter_sort)
  have "apply_outstanding ?ms' (- 1) (sort (map fst ?ms')) db =
        apply_outstanding ms (- 1) (sort (map fst ?ms')) db"
    by (rule apply_outstanding_cong_keys) (auto simp: keys map_of_nonneg)
  also have "\<dots> = apply_outstanding ms (- 1) (sort (map fst ms)) db"
    unfolding keys by (rule loop_filter)
  finally show ?thesis .
qed

lemma Migrate_nonneg:
  "records (contents db) = [] \<Longrightarrow> no_ErrNoRows (faults db) \<Longrightarrow>
     Migrate db (filter (\<lambda>(k, m). 0 \<le> k) ms) = Migrate db ms"
proof (induction db rule: measure_induct_rule [where f = retries_left])
  case (less db)
  let ?ms' = "filter (\<lambda>(k, m). 0 \<le> k) ms"
  obtain res db1 where rd: "withTx (emit EvMigrate db) select_maxApplied = (res, db1)"
    by (cases "withTx (emit EvMigrate db) select_maxApplied")
  show ?case
  proof (cases res)
    case (Inr w)
    from read_ok [OF rd [unfolded Inr]] less.prems have "w = - 1"
      by (simp add: versions_def coalesce_def)
    with rd Inr show ?thesis
      by (simp add: Migrate.simps [of db ?ms'] Migrate.simps [of db ms] loop_nonneg)
  next
    case (Inl a)
    from read_fail [OF rd [unfolded Inl]] obtain e pre where a: "a = Err e"
      and p1: "prelude db db1 (EvMigrate # pre)"
      by blast
    obtain ro db2 where ini: "initializeSchemaMigrations db1 = (ro, db2)"
      by (cases "initializeSchemaMigrations db1")
    show ?thesis
    proof (cases "errors_Is e errMissingSchemaMigration \<and> ro = None")
      case True
      from init_shape [OF ini] have "prelude db1 db2 [EvCreateTable]" by simp
      with p1 have p: "prelude db db2 ((EvMigrate # pre) @ [EvCreateTable])"
        by (rule prelude_trans)
      with less.prems have r2: "records (contents db2) = []"
        and f2: "no_ErrNoRows (faults db2)"
        by (auto simp: prelude_def intro: no_ErrNoRows_suffix)
      from True ini have "retries_left db2 < retries_left db"
        by (intro retry_decreases [OF rd]) simp
      from less.IH [OF this r2 f2] True rd Inl a ini show ?thesis
        by (simp add: Migrate.simps [of db ?ms'] Migrate.simps [of db ms])
    next
      case False
      with rd Inl a ini show ?thesis
        by (auto simp: Migrate.simps [of db ?ms'] Migrate.simps [of db ms]
            split: option.splits)
    qed
  qed
qed

lemma run_invoked:
  assumes "Migrate db ms = (r, db')"
  shows "\<exists>w. (no_ErrNoRows (faults db) \<longrightarrow> w = watermark (contents db)) \<and>
             prefix (invoked (events_since db db')) (filter ((<) w) (sort (map fst ms))) \<and>
             (r = None \<longrightarrow>
                invoked (events_since db db') = filter ((<) w) (sort (map fst ms)))"
proof -
  from Migrate_run [OF assms] obtain pre db1 w "done" tail where
    p: "prelude db db1 pre"
    and evs: "events_since db db' = pre @ concat (map tx_events done) @ tail"
    and out: "(\<exists>e. r = Some (Err e) \<and> db' = db1 \<and> done = [] \<and> tail = []) \<or>
            (loop_outcome ms w (sort (map fst ms)) db1 r db' done tail \<and>
             (no_ErrNoRows (faults db) \<longrightarrow>
                w = coalesce (sql_max (versions (contents db1))) (- 1)))"
    by (elim exE conjE) (rule that, auto)
  have inv: "invoked (events_since db db') = done @ invoked tail"
    unfolding evs by (rule invoked_run [OF p])
  from p have v: "versions (contents db1) = versions (contents db)"
    by (simp add: prelude_def versions_def)
  then have wm: "watermark (contents db1) = watermark (contents db)"
    by (simp add: watermark_def)
  from out show ?thesis
  proof
    assume "\<exists>e. r = Some (Err e) \<and> db' = db1 \<and> done = [] \<and> tail = []"
    then have "invoked (events_since db db') = []" "r \<noteq> None"
      using inv by auto
    then show ?thesis by (intro exI [of _ "watermark (contents db)"]) auto
  next
    assume "loop_outcome ms w (sort (map fst ms)) db1 r db' done tail \<and>
             (no_ErrNoRows (faults db) \<longrightarrow>
                w = coalesce (sql_max (versions (contents db1))) (- 1))"
    then have L: "loop_outcome ms w (sort (map fst ms)) db1 r db' done tail"
      and w: "no_ErrNoRows (faults db) \<longrightarrow> w = watermark (contents db)"
      using wm by (simp_all add: watermark_sql)
    show ?thesis
    proof (cases r)
      case None
      with L have "tail = []" "filter ((<) w) (sort (map fst ms)) = done"
        by (simp_all add: loop_outcome_def)
      with inv have "invoked (events_since db db') = filter ((<) w) (sort (map fst ms))"
        by simp
      with w show ?thesis by (intro exI [of _ w]) simp
    next
      case (Some e)
      with L obtain k rest where
        f: "filter ((<) w) (sort (map fst ms)) = done @ k # rest"
        and t: "tail \<in> failed_tx_events k"
        by (auto simp: loop_outcome_def)
      from invoked_failed_tx [OF t] inv
      have "invoked (events_since db db') = done \<or> invoked (events_since db db') = done @ [k]"
        by auto
      then have "prefix (invoked (events_since db db')) (done @ k # rest)"
        by (auto simp: prefix_def)
      with f Some w show ?thesis by (intro exI [of _ w]) simp
    qed
  qed
qed

lemma run_invoked_above:
  assumes "Migrate db ms = (r, db')" and "no_ErrNoRows (faults db)"
  shows "\<forall>k \<in> set (invoked (events_since db db')).
           coalesce (sql_max (versions (contents db))) (- 1) < k"
proof -
  from run_invoked [OF assms(1)] assms(2)
  have "prefix (invoked (events_since db db'))
          (filter ((<) (watermark (contents db))) (sort (map fst ms)))"
    by auto
  then have "set (invoked (events_since db db')) \<subseteq>
          set (filter ((<) (watermark (contents db))) (sort (map fst ms)))"
    by (rule set_mono_prefix)
  then show ?thesis by (auto simp: watermark_sql)
qed

lemma sorted_least_first:
  assumes "sorted xs" and "x \<in> set xs" and "\<forall>y \<in> set xs. x \<le> y"
  shows "\<exists>rest. xs = x # rest"
proof (cases xs)
  case Nil
  with assms(2) show ?thesis by simp
next
  case (Cons y ys)
  with assms have "y \<le> x" "x \<le> y" by auto
  with Cons show ?thesis by simp
qed

lemma first_outstanding:
  assumes "apply_outstanding ms w (k # keys) db = (r, db')"
    and "w < k" and "faults db = []" and "map_of ms k = Some m"
  shows "(\<exists>ev evs. trace db' = trace db @ EvBegin # ev # evs \<and> invoked [ev] = [k]) \<and>
         (always_succeeds m \<and> keeps_records m \<and> schema_migrations (contents db) \<noteq> None \<and>
          k \<notin> set (versions (contents db)) \<longrightarrow>
            (\<exists>evs. trace db' = trace db @ tx_events k @ evs \<and>
                   committed (tx_events k @ evs) = k # committed evs))"
proof -
  obtain res db2 where step: "withTx db (apply_migration ms k) = (res, db2)"
    by (cases "withTx db (apply_migration ms k)")
  from step_invokes [OF assms(3) step] obtain ev evs where
    t2: "trace db2 = trace db @ EvBegin # ev # evs" and ev: "invoked [ev] = [k]" by blast
  have rest: "\<exists>more. trace db' = trace db2 @ more"
  proof (cases res)
    case (Inl e)
    with step assms(1,2) show ?thesis by simp
  next
    case (Inr u)
    with step assms(1,2) have "apply_outstanding ms w keys db2 = (r, db')" by simp
    from loop_outcome [OF this] show ?thesis by (auto simp: loop_outcome_def)
  qed
  with t2 ev have 1: "\<exists>ev evs. trace db' = trace db @ EvBegin # ev # evs \<and> invoked [ev] = [k]"
    by auto
  have 2: "always_succeeds m \<and> keeps_records m \<and> schema_migrations (contents db) \<noteq> None \<and>
          k \<notin> set (versions (contents db)) \<longrightarrow>
            (\<exists>evs. trace db' = trace db @ tx_events k @ evs \<and>
                   committed (tx_events k @ evs) = k # committed evs)"
  proof
    assume h: "always_succeeds m \<and> keeps_records m \<and> schema_migrations (contents db) \<noteq> None \<and>
          k \<notin> set (versions (contents db))"
    then obtain d where b: "m (contents db) = (None, d, StillOpen)"
      by (auto simp: always_succeeds_def)
    with h have same: "schema_migrations d = schema_migrations (contents db)"
      by (auto dest: keeps_recordsD)
    with h obtain rows where rows: "schema_migrations d = Some rows" by auto
    with same have "schema_migrations (contents db) = Some rows" by simp
    then have "versions (contents db) = map fst rows"
      by (simp add: versions_def records_def)
    with h have "k \<notin> fst ` set rows" by simp
    from step_healthy [OF assms(3,4) b rows this] step
    have ok: "withTx db (apply_migration ms k) = (Inr (), db2)" by auto
    from step_ok [OF ok] have t: "trace db2 = trace db @ tx_events k" by blast
    from rest obtain more where "trace db' = trace db2 @ more" by blast
    with t have "trace db' = trace db @ tx_events k @ more" by simp
    moreover have "committed (tx_events k @ more) = k # committed more"
      using committed_tx_events [of "[k]" more] by simp
    ultimately show "\<exists>evs. trace db' = trace db @ tx_events k @ evs \<and>
                   committed (tx_events k @ evs) = k # committed evs"
      by blast
  qed
  from 1 2 show ?thesis by (intro conjI)
qed

lemma sorted_le_last: "sorted xs \<Longrightarrow> x \<in> set xs \<Longrightarrow> x \<le> last xs"
  by (induction xs) auto

section \<open>The claims\<close>

text \<open>
  C1 (for bodies that neither write the table of applied migrations themselves nor end
  the transaction they are given).  Suppose that in a run of \<open>Migrate\<close>, over a map with
  distinct keys, the body of version \<open>v\<close> is invoked and returns an error.  Then \<open>Migrate\<close>
  returns that error, and the contents afterwards are those the body was given: the
  error is what the body of \<open>v\<close> returns on them.  The run ends with the rollback of that
  transaction, and every body invoked before it has a version below \<open>v\<close> and committed,
  so that no body of a higher version is invoked.  The versions recorded afterwards are
  those recorded before followed by those committed in this run; and if the watermark
  query is never answered with \<open>sql.ErrNoRows\<close>, all of them are below \<open>v\<close>: there is no
  record of \<open>v\<close> or of a higher version.
\<close>

theorem body_failure_stops_run:
  assumes "Migrate db ms = (r, db')"
    and "EvBody v False \<in> set (events_since db db')"
    and "distinct (map fst ms)"
    and "\<forall>(k, m) \<in> set ms. keeps_records m \<and> leaves_open m"
  shows "(\<exists>e m. r = Some (Err e) \<and> map_of ms v = Some m \<and>
                fst (m (contents db')) = Some (Err e)) \<and>
         (\<exists>before.
            events_since db db' = before @ [EvBegin, EvBody v False, EvRollback] \<and>
            (\<forall>k \<in> set (invoked before). k < v) \<and>
            committed (events_since db db') = invoked before) \<and>
         versions (contents db') = versions (contents db) @ committed (events_since db db') \<and>
         (no_ErrNoRows (faults db) \<longrightarrow> (\<forall>k \<in> set (versions (contents db')). k < v))"
proof -
  from Migrate_run [OF assms(1)] obtain pre db1 w "done" tail where
    p: "prelude db db1 pre"
    and evs: "events_since db db' = pre @ concat (map tx_events done) @ tail"
    and out: "(\<exists>e. r = Some (Err e) \<and> db' = db1 \<and> done = [] \<and> tail = []) \<or>
            (loop_outcome ms w (sort (map fst ms)) db1 r db' done tail \<and>
             (no_ErrNoRows (faults db) \<longrightarrow>
                schema_migrations (contents db1) \<noteq> None \<and>
                w = coalesce (sql_max (versions (contents db1))) (- 1)))"
    by (elim exE conjE) (rule that, auto)
  from assms(2) have in_tail: "EvBody v False \<in> set tail"
    unfolding evs using no_body_in_prelude [OF p] no_failed_body_in_tx_events by auto
  then have "tail \<noteq> []" by auto
  with out have L: "loop_outcome ms w (sort (map fst ms)) db1 r db' done tail"
    and wm: "no_ErrNoRows (faults db) \<longrightarrow> w = coalesce (sql_max (versions (contents db1))) (- 1)"
    by auto
  from L \<open>tail \<noteq> []\<close> obtain a where r: "r = Some a"
    by (cases r) (auto simp: loop_outcome_def)
  with L obtain k rest where
    f: "filter ((<) w) (sort (map fst ms)) = done @ k # rest"
    and t: "tail \<in> failed_tx_events k"
    and b: "EvBody k False \<in> set tail \<longrightarrow>
              (\<exists>m e. a = Err e \<and> map_of ms k = Some m \<and>
                 (leaves_open m \<longrightarrow> fst (m (contents db')) = Some (Err e)))"
    by (auto simp: loop_outcome_def)
  from failed_body [OF t in_tail] have vk: "v = k"
    and tail: "tail = [EvBegin, EvBody k False, EvRollback]"
    by simp_all
  from b in_tail vk obtain m e where
    m: "a = Err e" "map_of ms v = Some m" "leaves_open m \<longrightarrow> fst (m (contents db')) = Some (Err e)"
    by auto
  from m(2) have "(v, m) \<in> set ms" by (rule map_of_SomeD)
  with assms(4) have "leaves_open m" by auto
  with m r have 1: "\<exists>e m. r = Some (Err e) \<and> map_of ms v = Some m \<and>
                fst (m (contents db')) = Some (Err e)"
    by auto
  let ?before = "pre @ concat (map tx_events done)"
  have inv: "invoked ?before = done"
    using invoked_run [OF p, of "done" "[]"] by simp
  have "sorted_wrt (<) (done @ k # rest)"
    using outstanding_strictly_sorted [OF assms(3), of w] f by simp
  then have lt: "\<forall>d \<in> set done. d < v"
    using vk by (auto simp: sorted_wrt_append)
  have com: "committed (events_since db db') = done"
    unfolding evs using committed_run [OF p, of "done" tail] tail by simp
  have 2: "\<exists>before.
            events_since db db' = before @ [EvBegin, EvBody v False, EvRollback] \<and>
            (\<forall>k \<in> set (invoked before). k < v) \<and>
            committed (events_since db db') = invoked before"
    using evs tail vk inv lt com by (intro exI [of _ ?before]) simp
  have fr: "\<forall>(k, m) \<in> set ms. keeps_records m" using assms(4) by auto
  from p have rec1: "records (contents db1) = records (contents db)"
    by (simp add: prelude_def)
  from L fr obtain new where
    "records (contents db') = records (contents db1) @ new" "map fst new = done"
    by (auto simp: loop_outcome_def)
  with rec1 com
  have 3: "versions (contents db') = versions (contents db) @ committed (events_since db db')"
    by (simp add: versions_def)
  have 4: "no_ErrNoRows (faults db) \<longrightarrow> (\<forall>k \<in> set (versions (contents db')). k < v)"
  proof
    assume "no_ErrNoRows (faults db)"
    with wm rec1 have w: "w = coalesce (sql_max (versions (contents db))) (- 1)"
      by (simp add: versions_def)
    have "w < v"
    proof -
      have "k \<in> set (filter ((<) w) (sort (map fst ms)))" unfolding f by simp
      with vk show ?thesis by simp
    qed
    with w have "\<forall>k \<in> set (versions (contents db)). k < v"
      using sql_max_ge [of _ "versions (contents db)" "- 1"] by fastforce
    with lt com 3 show "\<forall>k \<in> set (versions (contents db')). k < v" by auto
  qed
  from 1 2 3 4 show ?thesis by (intro conjI)
qed

theorem body_failure_stops_run_witness:
  "fst (Migrate (fresh SQLite) users_posts_broken) =
     Some (Err (ErrorString ''failed to apply migration 3'')) \<and>
   invoked (events_since (fresh SQLite) (snd (Migrate (fresh SQLite) users_posts_broken))) =
     [1, 2, 3] \<and>
   versions (contents (snd (Migrate (fresh SQLite) users_posts_broken))) = [1, 2] \<and>
   schema (contents (snd (Migrate (fresh SQLite) users_posts_broken))) = [''users'', ''posts'']"
proof -
  let ?db' = "snd (Migrate (fresh SQLite) users_posts_broken)"
  have r: "Migrate (fresh SQLite) users_posts_broken =
             (fst (Migrate (fresh SQLite) users_posts_broken), ?db')"
    by simp
  have f: "EvBody 3 False \<in> set (events_since (fresh SQLite) ?db')" by code_simp
  have d: "distinct (map fst users_posts_broken)" by (simp add: users_posts_broken_def)
  have k: "\<forall>(k, m) \<in> set users_posts_broken. keeps_records m \<and> leaves_open m"
    by (simp add: users_posts_broken_def)
  have c: "committed (events_since (fresh SQLite) ?db') = [1, 2]" by code_simp
  have v0: "versions (contents (fresh SQLite)) = []" by code_simp
  have i: "invoked (events_since (fresh SQLite) ?db') = [1, 2, 3]" by code_simp
  have s: "schema (contents ?db') = [''users'', ''posts'']" by code_simp
  have m: "map_of users_posts_broken 3 = Some (failing ''failed to apply migration 3'')"
    by (simp add: users_posts_broken_def)
  note T = body_failure_stops_run [OF r f d k]
  from T m have "fst (Migrate (fresh SQLite) users_posts_broken) =
     Some (Err (ErrorString ''failed to apply migration 3''))"
    by (auto simp: failing_def)
  moreover from T c v0 have "versions (contents ?db') = [1, 2]" by simp
  ultimately show ?thesis using i s by simp
qed

text \<open>
  C1 does not extend to a body that writes the table of applied migrations itself: the
  body of version 1 adds a row for version 99; when the body of version 2 then fails, a
  record of 99 is there, though only version 1 committed and 99 is above 2.
\<close>

theorem body_failure_after_forged_record:
  "fst (Migrate (fresh SQLite) forged_record) =
     Some (Err (ErrorString ''failed to apply migration 2'')) \<and>
   invoked (events_since (fresh SQLite) (snd (Migrate (fresh SQLite) forged_record))) = [1, 2] \<and>
   committed (events_since (fresh SQLite) (snd (Migrate (fresh SQLite) forged_record))) = [1] \<and>
   versions (contents (snd (Migrate (fresh SQLite) forged_record))) = [99, 1]"
  by code_simp

text \<open>
  C2.  Whatever order the map is iterated in, the run is the same.  The outstanding
  versions are the sorted keys above the watermark, which is the highest version recorded
  when \<open>Migrate\<close> is invoked (or \<open>-1\<close>), provided the watermark query is not answered with
  \<open>sql.ErrNoRows\<close>.  The bodies invoked are those of the outstanding versions in strictly
  ascending order, gaps or no gaps, none left out on the way: the versions invoked are an
  initial part of that list, and the whole of it when \<open>Migrate\<close> returns \<open>nil\<close>.  When no
  call to the database fails and \<open>Migrate\<close> does not return \<open>nil\<close>, it stopped in the
  transaction of an outstanding version: the bodies of the outstanding versions up to
  that one have been invoked, and those before it have committed.
\<close>

theorem Migrate_ascending_order:
  assumes "distinct (map fst ms)" and "mset ms' = mset ms" and "Migrate db ms = (r, db')"
  shows "Migrate db ms' = (r, db') \<and>
         sorted_wrt (<) (invoked (events_since db db')) \<and>
         (\<exists>w. (no_ErrNoRows (faults db) \<longrightarrow> w = watermark (contents db)) \<and>
              prefix (invoked (events_since db db')) (filter ((<) w) (sort (map fst ms))) \<and>
              (r = None \<longrightarrow>
                 invoked (events_since db db') = filter ((<) w) (sort (map fst ms)))) \<and>
         (faults db = [] \<and>
          (schema_migrations (contents db) \<noteq> None \<or> driver db \<noteq> OtherDriver) \<and> r \<noteq> None \<longrightarrow>
            (\<exists>done k rest.
               filter ((<) (watermark (contents db))) (sort (map fst ms)) = done @ k # rest \<and>
               invoked (events_since db db') = done @ [k] \<and>
               committed (events_since db db') = done))"
proof -
  from perm_same_map [OF assms(1,2)]
  have "Migrate db ms' = Migrate db ms" by (intro Migrate_cong) simp_all
  with assms(3) have 1: "Migrate db ms' = (r, db')" by simp
  from run_invoked [OF assms(3)] obtain w where
    wm: "no_ErrNoRows (faults db) \<longrightarrow> w = watermark (contents db)"
    and pf: "prefix (invoked (events_since db db')) (filter ((<) w) (sort (map fst ms)))"
    and all: "r = None \<longrightarrow> invoked (events_since db db') = filter ((<) w) (sort (map fst ms))"
    by blast
  from pf obtain zs where
    "filter ((<) w) (sort (map fst ms)) = invoked (events_since db db') @ zs"
    by (auto simp: prefix_def)
  with outstanding_strictly_sorted [OF assms(1), of w]
  have 2: "sorted_wrt (<) (invoked (events_since db db'))"
    by (simp add: sorted_wrt_append)
  from wm pf all
  have 3: "\<exists>w. (no_ErrNoRows (faults db) \<longrightarrow> w = watermark (contents db)) \<and>
              prefix (invoked (events_since db db')) (filter ((<) w) (sort (map fst ms))) \<and>
              (r = None \<longrightarrow>
                 invoked (events_since db db') = filter ((<) w) (sort (map fst ms)))"
    by blast
  have 4: "faults db = [] \<and>
          (schema_migrations (contents db) \<noteq> None \<or> driver db \<noteq> OtherDriver) \<and> r \<noteq> None \<longrightarrow>
            (\<exists>done k rest.
               filter ((<) (watermark (contents db))) (sort (map fst ms)) = done @ k # rest \<and>
               invoked (events_since db db') = done @ [k] \<and>
               committed (events_since db db') = done)"
  proof
    assume h: "faults db = [] \<and>
          (schema_migrations (contents db) \<noteq> None \<or> driver db \<noteq> OtherDriver) \<and> r \<noteq> None"
    then obtain a where a: "r = Some a" by auto
    from h run_healthy [OF assms(3)] obtain pre db1 "done" tail where
      p: "prelude db db1 pre" and f1: "faults db1 = []"
      and evs: "events_since db db' = pre @ concat (map tx_events done) @ tail"
      and L: "loop_outcome ms (watermark (contents db)) (sort (map fst ms)) db1 r db' done tail"
      by blast
    from L a f1 obtain k rest where
      f: "filter ((<) (watermark (contents db))) (sort (map fst ms)) = done @ k # rest"
      and t: "tail \<in> failed_tx_events k" and i: "invoked tail = [k]"
      by (auto simp: loop_outcome_def)
    have "invoked (events_since db db') = done @ [k]"
      unfolding evs using invoked_run [OF p, of "done" tail] i by simp
    moreover have "committed (events_since db db') = done"
      unfolding evs using committed_run [OF p, of "done" tail] committed_failed_tx [OF t] by simp
    ultimately show "\<exists>done k rest.
               filter ((<) (watermark (contents db))) (sort (map fst ms)) = done @ k # rest \<and>
               invoked (events_since db db') = done @ [k] \<and>
               committed (events_since db db') = done"
      using f by blast
  qed
  from 1 2 3 4 show ?thesis by (intro conjI)
qed

theorem Migrate_ascending_order_witness:
  "Migrate (fresh SQLite) gaps' = Migrate (fresh SQLite) gaps \<and>
   fst (Migrate (fresh SQLite) gaps) = None \<and>
   watermark (contents (fresh SQLite)) = - 1 \<and>
   sorted_wrt (<) (invoked (events_since (fresh SQLite) (snd (Migrate (fresh SQLite) gaps)))) \<and>
   invoked (events_since (fresh SQLite) (snd (Migrate (fresh SQLite) gaps))) = [1, 5, 100] \<and>
   fst (Migrate (fresh SQLite) users_posts_broken) \<noteq> None \<and>
   (\<exists>done k rest.
      filter ((<) (watermark (contents (fresh SQLite)))) (sort (map fst users_posts_broken)) =
        done @ k # rest \<and>
      invoked (events_since (fresh SQLite) (snd (Migrate (fresh SQLite) users_posts_broken))) =
        done @ [k] \<and>
      committed (events_since (fresh SQLite) (snd (Migrate (fresh SQLite) users_posts_broken))) =
        done)"
proof -
  let ?db' = "snd (Migrate (fresh SQLite) gaps)"
  have d: "distinct (map fst gaps)" by (simp add: gaps_def)
  have m: "mset gaps' = mset gaps" by (simp add: gaps_def gaps'_def)
  have r: "Migrate (fresh SQLite) gaps = (fst (Migrate (fresh SQLite) gaps), ?db')"
    by simp
  have e: "fst (Migrate (fresh SQLite) gaps) = None" by code_simp
  have n: "no_ErrNoRows (faults (fresh SQLite))" by (simp add: no_ErrNoRows_def fresh_def)
  have w: "watermark (contents (fresh SQLite)) = - 1"
    by (simp add: watermark_def versions_def records_def fresh_def)
  have o: "filter ((<) (- 1)) (sort (map fst gaps)) = [1, 5, 100]" by (simp add: gaps_def)
  note T = Migrate_ascending_order [OF d m r]
  from T n e w o
  have i: "invoked (events_since (fresh SQLite) ?db') = [1, 5, 100]" by auto
  from T have g: "Migrate (fresh SQLite) gaps' = Migrate (fresh SQLite) gaps"
    and s: "sorted_wrt (<) (invoked (events_since (fresh SQLite) ?db'))"
    by simp_all
  have d2: "distinct (map fst users_posts_broken)" by (simp add: users_posts_broken_def)
  have r2: "Migrate (fresh SQLite) users_posts_broken =
              (fst (Migrate (fresh SQLite) users_posts_broken),
               snd (Migrate (fresh SQLite) users_posts_broken))"
    by simp
  have e2: "fst (Migrate (fresh SQLite) users_posts_broken) \<noteq> None" by code_simp
  have h: "faults (fresh SQLite) = [] \<and>
           (schema_migrations (contents (fresh SQLite)) \<noteq> None \<or>
            driver (fresh SQLite) \<noteq> OtherDriver)"
    by (simp add: fresh_def)
  from Migrate_ascending_order [OF d2 refl r2] h e2
  have "\<exists>done k rest.
      filter ((<) (watermark (contents (fresh SQLite)))) (sort (map fst users_posts_broken)) =
        done @ k # rest \<and>
      invoked (events_since (fresh SQLite) (snd (Migrate (fresh SQLite) users_posts_broken))) =
        done @ [k] \<and>
      committed (events_since (fresh SQLite) (snd (Migrate (fresh SQLite) users_posts_broken))) =
        done"
    by blast
  with g e w s i e2 show ?thesis by (intro conjI)
qed

text \<open>
  C3 (after a first invocation that succeeds).  After an invocation that returned \<open>nil\<close>, a second invocation with the
  same map during which no call to the database fails returns \<open>nil\<close>, leaves the contents
  as they are and invokes no body: every supplied version is at or below the watermark
  now recorded.  (The first watermark query was not answered with \<open>sql.ErrNoRows\<close>.)
\<close>

theorem second_run_applies_nothing:
  assumes "Migrate db ms = (None, db1)"
    and "no_ErrNoRows (faults db)"
    and "faults db1 = []"
  shows "fst (Migrate db1 ms) = None \<and>
         contents (snd (Migrate db1 ms)) = contents db1 \<and>
         invoked (events_since db1 (snd (Migrate db1 ms))) = [] \<and>
         (\<forall>k \<in> set (map fst ms). k \<le> coalesce (sql_max (versions (contents db1))) (- 1))"
proof -
  let ?keys = "sort (map fst ms)"
  from Migrate_run [OF assms(1)] assms(2) obtain pre db0 w "done" tail where
    p: "prelude db db0 pre"
    and L: "loop_outcome ms w ?keys db0 None db1 done tail"
    and tbl: "schema_migrations (contents db0) \<noteq> None"
    and w: "w = coalesce (sql_max (versions (contents db0))) (- 1)"
    by auto
  from L have d: "filter ((<) w) ?keys = done"
    and l: "if done = [] then db1 = db0
            else schema_migrations (contents db1) \<noteq> None \<and>
                 last done \<in> set (versions (contents db1))"
    by (simp_all add: loop_outcome_def)
  let ?w1 = "coalesce (sql_max (versions (contents db1))) (- 1)"
  have tbl1: "schema_migrations (contents db1) \<noteq> None"
    using l tbl by (auto split: if_splits)
  have le: "\<forall>k \<in> set ?keys. k \<le> ?w1"
  proof (cases "done = []")
    case True
    with l w have "?w1 = w" by simp
    moreover from True d have "\<forall>k \<in> set ?keys. \<not> w < k"
      by (auto simp: filter_empty_conv)
    ultimately show ?thesis by auto
  next
    case False
    with l have "last done \<in> set (versions (contents db1))" by simp
    then have top: "last done \<le> ?w1" by (rule sql_max_ge)
    have "sorted done" unfolding d [symmetric] by (rule sorted_wrt_filter) simp
    then have up: "\<forall>k \<in> set done. k \<le> last done" by (auto intro: sorted_le_last)
    from False have "last done \<in> set done" by simp
    with d have above: "w < last done" by auto
    show ?thesis
    proof
      fix k assume k: "k \<in> set ?keys"
      show "k \<le> ?w1"
      proof (cases "w < k")
        case True
        with k have "k \<in> set (filter ((<) w) ?keys)" by simp
        with d have "k \<in> set done" by simp
        with up top show ?thesis by auto
      next
        case False
        with above top show ?thesis by simp
      qed
    qed
  qed
  from tbl1 have ok: "schema_migrations (contents db1) \<noteq> None \<or> driver db1 \<noteq> OtherDriver"
    by simp
  from Migrate_healthy [OF assms(3) ok, of ms] obtain pre' db2 where
    p': "prelude db1 db2 pre'"
    and c: "contents db2 = (contents db1)\<lparr>schema_migrations := Some (records (contents db1))\<rparr>"
    and m: "Migrate db1 ms = apply_outstanding ms ?w1 ?keys db2"
    by blast
  from m loop_skip [OF le] have res: "Migrate db1 ms = (None, db2)" by simp
  from c tbl1 have c': "contents db2 = contents db1" by (simp add: records_update_same)
  from p' have "events_since db1 db2 = pre'" "invoked pre' = []"
    by (simp_all add: prelude_def invoked_prelude)
  with res c' le show ?thesis by simp
qed

theorem second_run_applies_nothing_witness:
  "fst (Migrate (fresh SQLite) users_posts) = None \<and>
   fst (Migrate (snd (Migrate (fresh SQLite) users_posts)) users_posts) = None \<and>
   contents (snd (Migrate (snd (Migrate (fresh SQLite) users_posts)) users_posts)) =
     contents (snd (Migrate (fresh SQLite) users_posts)) \<and>
   invoked (events_since (snd (Migrate (fresh SQLite) users_posts))
     (snd (Migrate (snd (Migrate (fresh SQLite) users_posts)) users_posts))) = [] \<and>
   versions (contents (snd (Migrate (fresh SQLite) users_posts))) = [1, 2]"
proof -
  let ?db1 = "snd (Migrate (fresh SQLite) users_posts)"
  have e: "fst (Migrate (fresh SQLite) users_posts) = None" by code_simp
  then have r: "Migrate (fresh SQLite) users_posts = (None, ?db1)"
    by (simp add: prod_eq_iff)
  have n: "no_ErrNoRows (faults (fresh SQLite))" by (simp add: no_ErrNoRows_def fresh_def)
  have f: "faults ?db1 = []" by code_simp
  have v: "versions (contents ?db1) = [1, 2]" by code_simp
  from second_run_applies_nothing [OF r n f] e v show ?thesis by simp
qed

text \<open>
  C3 does not extend to a first invocation that fails: with the migrations of the
  repository's third test, the second invocation invokes the body of 3 again.
\<close>

theorem second_run_after_failure:
  "invoked (events_since (snd (Migrate (fresh SQLite) users_posts_broken))
     (snd (Migrate (snd (Migrate (fresh SQLite) users_posts_broken)) users_posts_broken))) = [3]"
  by code_simp

text \<open>
  C4 (for bodies that neither write the table of applied migrations themselves nor end
  the transaction they are given).  A run only adds rows, one for each version whose
  transaction committed, in order, so that a record of \<open>V\<close> exists afterwards iff it
  existed before or the transaction of \<open>V\<close> committed in this run; the events of each
  committed version are those of one whole transaction (\<open>Begin\<close>, body, insert, log,
  \<open>Commit\<close>).  For one transaction of the loop, from any state: if it does not commit
  (the body fails or panics, the insert fails, the commit fails) the contents are what
  they were, whatever the body had done in the transaction; and if it commits, the
  contents are what the body left with the record of \<open>V\<close> added.
\<close>

theorem records_iff_committed:
  assumes "Migrate db ms = (r, db')"
    and "\<forall>(k, m) \<in> set ms. keeps_records m \<and> leaves_open m"
  shows "(\<exists>new. records (contents db') = records (contents db) @ new \<and>
                map fst new = committed (events_since db db')) \<and>
         (V \<in> set (versions (contents db')) \<longleftrightarrow>
            V \<in> set (versions (contents db)) \<or> V \<in> set (committed (events_since db db'))) \<and>
         (\<exists>pre tail.
            events_since db db' =
              pre @ concat (map tx_events (committed (events_since db db'))) @ tail) \<and>
         (case withTx dbx (apply_migration ms V) of
            (Inl a, dbx') \<Rightarrow> contents dbx' = contents dbx
          | (Inr u, dbx') \<Rightarrow>
              trace dbx' = trace dbx @ tx_events V \<and>
              (\<exists>m d. map_of ms V = Some m \<and> m (contents dbx) = (None, d, StillOpen) \<and>
                 contents dbx' =
                   d\<lparr>schema_migrations := Some (records d @ [(V, clock dbx (ticks dbx))])\<rparr>))"
proof -
  have fr: "\<forall>(k, m) \<in> set ms. keeps_records m" using assms(2) by auto
  from run_records [OF assms(1) fr] obtain pre tail new where
    evs: "events_since db db' = pre @ concat (map tx_events (committed (events_since db db'))) @ tail"
    and new: "records (contents db') = records (contents db) @ new"
      "map fst new = committed (events_since db db')"
    by blast
  have 1: "\<exists>new. records (contents db') = records (contents db) @ new \<and>
                map fst new = committed (events_since db db')"
    using new by blast
  have 2: "V \<in> set (versions (contents db')) \<longleftrightarrow>
            V \<in> set (versions (contents db)) \<or> V \<in> set (committed (events_since db db'))"
    using new by (simp add: versions_def)
  have 3: "\<exists>pre tail.
            events_since db db' =
              pre @ concat (map tx_events (committed (events_since db db'))) @ tail"
    using evs by blast
  obtain res dbx' where step: "withTx dbx (apply_migration ms V) = (res, dbx')"
    by (cases "withTx dbx (apply_migration ms V)")
  have 4: "case withTx dbx (apply_migration ms V) of
            (Inl a, dbx') \<Rightarrow> contents dbx' = contents dbx
          | (Inr u, dbx') \<Rightarrow>
              trace dbx' = trace dbx @ tx_events V \<and>
              (\<exists>m d. map_of ms V = Some m \<and> m (contents dbx) = (None, d, StillOpen) \<and>
                 contents dbx' =
                   d\<lparr>schema_migrations := Some (records d @ [(V, clock dbx (ticks dbx))])\<rparr>)"
  proof (cases res)
    case (Inl a)
    have "contents dbx' = contents dbx"
    proof (rule step_fail_contents [OF step [unfolded Inl]])
      fix m assume "map_of ms V = Some m"
      then have "(V, m) \<in> set ms" by (rule map_of_SomeD)
      with assms(2) show "leaves_open m" by auto
    qed
    with step Inl show ?thesis by simp
  next
    case (Inr u)
    with step step_ok [of dbx ms V u dbx'] show ?thesis by (auto simp: records_def)
  qed
  from 1 2 3 4 show ?thesis by (intro conjI)
qed

theorem records_iff_committed_witness:
  "fst (Migrate commit_fails users_posts) = Some (Err (DriverError ''connection reset'')) \<and>
   committed (events_since commit_fails (snd (Migrate commit_fails users_posts))) = [1] \<and>
   1 \<in> set (versions (contents (snd (Migrate commit_fails users_posts)))) \<and>
   2 \<notin> set (versions (contents (snd (Migrate commit_fails users_posts)))) \<and>
   schema (contents (snd (Migrate commit_fails users_posts))) = [''users''] \<and>
   fst (withTx (bootstrapped SQLite) (apply_migration users_then_half 2)) =
     Inl (Err (ErrorString ''failed to apply migration 2'')) \<and>
   contents (snd (withTx (bootstrapped SQLite) (apply_migration users_then_half 2))) =
     contents (bootstrapped SQLite)"
proof -
  let ?db' = "snd (Migrate commit_fails users_posts)"
  have r: "Migrate commit_fails users_posts = (fst (Migrate commit_fails users_posts), ?db')"
    by simp
  have k: "\<forall>(k, m) \<in> set users_posts. keeps_records m \<and> leaves_open m"
    by (simp add: users_posts_def)
  have e: "fst (Migrate commit_fails users_posts) = Some (Err (DriverError ''connection reset''))"
    by code_simp
  have c: "committed (events_since commit_fails ?db') = [1]" by code_simp
  have v: "versions (contents commit_fails) = []" by code_simp
  have s: "schema (contents ?db') = [''users'']" by code_simp
  from records_iff_committed [OF r k, of 1] c v
  have one: "1 \<in> set (versions (contents ?db'))" by simp
  from records_iff_committed [OF r k, of 2] c v
  have two: "2 \<notin> set (versions (contents ?db'))" by simp
  let ?step = "withTx (bootstrapped SQLite) (apply_migration users_then_half 2)"
  have r2: "Migrate (fresh SQLite) users_then_half =
              (fst (Migrate (fresh SQLite) users_then_half),
               snd (Migrate (fresh SQLite) users_then_half))"
    by simp
  have k2: "\<forall>(k, m) \<in> set users_then_half. keeps_records m \<and> leaves_open m"
    by (simp add: users_then_half_def)
  have f: "fst ?step = Inl (Err (ErrorString ''failed to apply migration 2''))" by code_simp
  then have st: "?step = (Inl (Err (ErrorString ''failed to apply migration 2'')), snd ?step)"
    by (simp add: prod_eq_iff)
  note step_part = records_iff_committed [OF r2 k2, of 2 "bootstrapped SQLite",
      THEN conjunct2, THEN conjunct2, THEN conjunct2]
  have half: "contents (snd ?step) = contents (bootstrapped SQLite)"
    using step_part by (subst (asm) st) simp
  from e c one two s f half show ?thesis by (intro conjI)
qed

text \<open>
  C4 does not extend to a body that ends the transaction itself: the body of version 1
  creates a table and calls \<open>tx.Commit()\<close>; the insert of the record then fails with
  \<open>sql.ErrTxDone\<close>, and the table the body created is there without a record of version 1.
\<close>

theorem body_commit_leaves_no_record:
  "fst (Migrate (fresh SQLite) commits_itself) = Some (Err ErrTxDone) \<and>
   committed (events_since (fresh SQLite) (snd (Migrate (fresh SQLite) commits_itself))) = [] \<and>
   contents (snd (Migrate (fresh SQLite) commits_itself)) =
     \<lparr>schema_migrations = Some [], schema = [''users'']\<rparr>"
  by code_simp

text \<open>
  C5 (on a database where a table that was created is there for the next call).  When
  the watermark read reports the missing store (\<open>errMissingSchemaMigration\<close>) and
  \<open>initializeSchemaMigrations\<close> fails with \<open>e'\<close>, the result is \<open>e'\<close> wrapped with
  \<open>failed to initialize schema migrations\<close>, nothing is retried and the contents are as
  before; when it succeeds, the result is that of \<open>Migrate\<close> run again.  On a database
  that does not lose a table it reported as created, that second run does not start a
  third: one invocation enters \<open>Migrate\<close> at most twice.
\<close>

theorem Migrate_retries_at_most_once:
  assumes "Migrate db ms = (r, db')"
  shows "(lost_creates db = 0 \<longrightarrow> count_list (events_since db db') EvMigrate \<le> 2) \<and>
         (withTx (emit EvMigrate db) select_maxApplied = (Inl (Err e), db1) \<longrightarrow>
          errors_Is e errMissingSchemaMigration \<longrightarrow>
          initializeSchemaMigrations db1 = (ro, db2) \<longrightarrow>
            (case ro of
               Some e' \<Rightarrow>
                 r = Some (Err (Wrap ''failed to initialize schema migrations'' e')) \<and>
                 db' = db2 \<and>
                 count_list (events_since db db') EvMigrate = 1 \<and>
                 contents db' = contents db
             | None \<Rightarrow>
                 Migrate db2 ms = (r, db') \<and>
                 (lost_creates db = 0 \<longrightarrow>
                    count_list (events_since db2 db') EvMigrate = 1)))"
proof (intro conjI impI)
  assume "lost_creates db = 0"
  with run_count [OF assms] show "count_list (events_since db db') EvMigrate \<le> 2"
    by simp
next
  assume rd: "withTx (emit EvMigrate db) select_maxApplied = (Inl (Err e), db1)"
    and missing: "errors_Is e errMissingSchemaMigration"
    and ini: "initializeSchemaMigrations db1 = (ro, db2)"
  from read_fail [OF rd] obtain pre where
    p1: "prelude db db1 (EvMigrate # pre)" and m: "EvMigrate \<notin> set pre"
    and c1: "contents db1 = contents db" and l1: "lost_creates db1 = lost_creates db"
    by blast
  note i = init_shape [OF ini]
  show "case ro of
          Some e' \<Rightarrow>
            r = Some (Err (Wrap ''failed to initialize schema migrations'' e')) \<and>
            db' = db2 \<and>
            count_list (events_since db db') EvMigrate = 1 \<and>
            contents db' = contents db
        | None \<Rightarrow>
            Migrate db2 ms = (r, db') \<and>
            (lost_creates db = 0 \<longrightarrow> count_list (events_since db2 db') EvMigrate = 1)"
  proof (cases ro)
    case None
    with rd missing ini assms have again: "Migrate db2 ms = (r, db')"
      by (simp add: Migrate.simps [of db ms])
    have "lost_creates db = 0 \<longrightarrow> count_list (events_since db2 db') EvMigrate = 1"
    proof
      assume "lost_creates db = 0"
      with i None l1 have "schema_migrations (contents db2) \<noteq> None" by simp
      with run_count [OF again] show "count_list (events_since db2 db') EvMigrate = 1"
        by simp
    qed
    with again None show ?thesis by simp
  next
    case (Some e')
    with rd missing ini assms
    have res: "r = Some (Err (Wrap ''failed to initialize schema migrations'' e'))" "db' = db2"
      by (simp_all add: Migrate.simps [of db ms])
    from p1 i have "trace db2 = trace db @ (EvMigrate # pre) @ [EvCreateTable]"
      by (simp add: prelude_def)
    then have "events_since db db2 = (EvMigrate # pre) @ [EvCreateTable]"
      by (rule events_since_append)
    with m have "count_list (events_since db db2) EvMigrate = 1" by simp
    moreover from i Some c1 have "contents db2 = contents db" by simp
    ultimately show ?thesis using res Some by simp
  qed
qed

theorem Migrate_retries_at_most_once_witness:
  "fst (Migrate init_fails gaps) =
     Some (Err (Wrap ''failed to initialize schema migrations''
                  (DriverError ''permission denied''))) \<and>
   count_list (events_since init_fails (snd (Migrate init_fails gaps))) EvMigrate = 1 \<and>
   contents (snd (Migrate init_fails gaps)) = contents init_fails \<and>
   count_list (events_since (fresh SQLite) (snd (Migrate (fresh SQLite) gaps))) EvMigrate = 2"
proof -
  let ?rd = "withTx (emit EvMigrate init_fails) select_maxApplied"
  let ?ini = "initializeSchemaMigrations (snd ?rd)"
  have r: "Migrate init_fails gaps = (fst (Migrate init_fails gaps), snd (Migrate init_fails gaps))"
    by simp
  have "fst ?rd = Inl (Err errMissingSchemaMigration)" by code_simp
  then have rd: "?rd = (Inl (Err errMissingSchemaMigration), snd ?rd)"
    by (simp add: prod_eq_iff)
  have "fst ?ini = Some (DriverError ''permission denied'')" by code_simp
  then have ini: "?ini = (Some (DriverError ''permission denied''), snd ?ini)"
    by (simp add: prod_eq_iff)
  have two: "count_list (events_since (fresh SQLite) (snd (Migrate (fresh SQLite) gaps))) EvMigrate = 2"
    by code_simp
  have "errors_Is errMissingSchemaMigration errMissingSchemaMigration" by simp
  with Migrate_retries_at_most_once [OF r, of errMissingSchemaMigration "snd ?rd"
      "Some (DriverError ''permission denied'')" "snd ?ini"] rd ini
  have "case Some (DriverError ''permission denied'') of
          Some e' \<Rightarrow>
            fst (Migrate init_fails gaps) =
              Some (Err (Wrap ''failed to initialize schema migrations'' e')) \<and>
            snd (Migrate init_fails gaps) = snd ?ini \<and>
            count_list (events_since init_fails (snd (Migrate init_fails gaps))) EvMigrate = 1 \<and>
            contents (snd (Migrate init_fails gaps)) = contents init_fails
        | None \<Rightarrow>
            Migrate (snd ?ini) gaps = (fst (Migrate init_fails gaps), snd (Migrate init_fails gaps)) \<and>
            (lost_creates init_fails = 0 \<longrightarrow>
               count_list (events_since (snd ?ini) (snd (Migrate init_fails gaps))) EvMigrate = 1)"
    by blast
  then have "fst (Migrate init_fails gaps) =
          Some (Err (Wrap ''failed to initialize schema migrations''
                       (DriverError ''permission denied''))) \<and>
        snd (Migrate init_fails gaps) = snd ?ini \<and>
        count_list (events_since init_fails (snd (Migrate init_fails gaps))) EvMigrate = 1 \<and>
        contents (snd (Migrate init_fails gaps)) = contents init_fails"
    unfolding option.case .
  with two show ?thesis by blast
qed

text \<open>
  C5 does not extend to a database that loses the table it reported as created: the call
  of \<open>Migrate\<close> to itself is unconditional, and on a database that loses the table twice
  one invocation enters \<open>Migrate\<close> four times before it returns (two times more than
  the tables lost, whatever their number: \<open>healthy_bootstrap_entries\<close>).
\<close>

theorem Migrate_retries_while_table_missing:
  "fst (Migrate loses_table []) = None \<and>
   count_list (events_since loses_table (snd (Migrate loses_table []))) EvMigrate = 4 \<and>
   count_list (events_since loses_table (snd (Migrate loses_table []))) EvCreateTable = 3"
  by code_simp

text \<open>
  C6 (for versions from 0 up, and bodies that neither write the table of applied
  migrations themselves nor end the transaction they are given).  On a database without
  the table, where the watermark query is not answered with \<open>sql.ErrNoRows\<close>: whenever
  \<open>Migrate\<close> returns \<open>nil\<close>, the table exists, the bodies of all supplied versions were
  invoked and committed in ascending order, and the versions recorded are exactly the
  supplied ones; and it does return \<open>nil\<close> when no call to the database fails, the driver
  is PostgreSQL or SQLite, and no body that is invoked returns an error or panics.
\<close>

theorem bootstrap_applies_all:
  assumes "schema_migrations (contents db) = None"
    and "\<forall>(k, m) \<in> set ms. 0 \<le> k \<and> keeps_records m \<and> leaves_open m"
    and "no_ErrNoRows (faults db)"
  shows "(fst (Migrate db ms) = None \<longrightarrow>
            schema_migrations (contents (snd (Migrate db ms))) \<noteq> None \<and>
            invoked (events_since db (snd (Migrate db ms))) = sort (map fst ms) \<and>
            committed (events_since db (snd (Migrate db ms))) = sort (map fst ms) \<and>
            versions (contents (snd (Migrate db ms))) = sort (map fst ms)) \<and>
         (faults db = [] \<and> driver db \<noteq> OtherDriver \<and> distinct (map fst ms) \<and>
          (\<forall>v. EvBody v False \<notin> set (events_since db (snd (Migrate db ms))) \<and>
               EvPanic v \<notin> set (events_since db (snd (Migrate db ms)))) \<longrightarrow>
            fst (Migrate db ms) = None)"
proof (intro conjI impI)
  let ?keys = "sort (map fst ms)"
  let ?db' = "snd (Migrate db ms)"
  from assms(1) have v0: "versions (contents db) = []" "records (contents db) = []"
    by (simp_all add: versions_def records_def)
  have fr: "\<forall>(k, m) \<in> set ms. keeps_records m" using assms(2) by auto
  have all: "filter ((<) (- 1)) ?keys = ?keys"
    using assms(2) by (auto simp: filter_id_conv)
  {
    assume e: "fst (Migrate db ms) = None"
    then have res: "Migrate db ms = (None, ?db')" by (simp add: prod_eq_iff)
    from Migrate_run [OF res] assms(3) obtain pre db1 w "done" tail where
      p: "prelude db db1 pre"
      and evs: "events_since db ?db' = pre @ concat (map tx_events done) @ tail"
      and L: "loop_outcome ms w ?keys db1 None ?db' done tail"
      and t1: "schema_migrations (contents db1) \<noteq> None"
      and w: "w = coalesce (sql_max (versions (contents db1))) (- 1)"
      by auto
    from p v0 have v1: "records (contents db1) = []" by (simp add: prelude_def)
    with w have w1: "w = - 1" by (simp add: versions_def coalesce_def)
    from L all w1 have tail: "tail = []" and d: "done = ?keys"
      by (simp_all add: loop_outcome_def)
    from L fr t1 v1 obtain new where
      "records (contents ?db') = records (contents db1) @ new" "map fst new = done"
      and t': "schema_migrations (contents ?db') \<noteq> None"
      by (auto simp: loop_outcome_def)
    with v1 d have vs: "versions (contents ?db') = ?keys" by (simp add: versions_def)
    have i: "invoked (events_since db ?db') = ?keys"
      unfolding evs using invoked_run [OF p, of "done" tail] d tail by simp
    have c: "committed (events_since db ?db') = ?keys"
      unfolding evs using committed_run [OF p, of "done" tail] d tail by simp
    from t' show "schema_migrations (contents ?db') \<noteq> None" .
    from i show "invoked (events_since db ?db') = ?keys" .
    from c show "committed (events_since db ?db') = ?keys" .
    from vs show "versions (contents ?db') = ?keys" .
  }
  assume h: "faults db = [] \<and> driver db \<noteq> OtherDriver \<and> distinct (map fst ms) \<and>
          (\<forall>v. EvBody v False \<notin> set (events_since db ?db') \<and>
               EvPanic v \<notin> set (events_since db ?db'))"
  have res: "Migrate db ms = (fst (Migrate db ms), ?db')" by simp
  from h run_healthy [OF res] obtain pre db1 where
    p: "prelude db db1 pre" and f1: "faults db1 = []"
    and c1: "contents db1 = (contents db)\<lparr>schema_migrations := Some (records (contents db))\<rparr>"
    and loop: "apply_outstanding ms (watermark (contents db)) ?keys db1 = (fst (Migrate db ms), ?db')"
    by blast
  from c1 v0 have t1: "schema_migrations (contents db1) \<noteq> None"
    and v1: "versions (contents db1) = []"
    by (simp_all add: versions_def records_def)
  have wb: "\<forall>(k, m) \<in> set ms. keeps_records m \<and> leaves_open m"
    using assms(2) by auto
  have "fst (Migrate db ms) = None \<or>
        (\<exists>v. EvBody v False \<in> set (events_since db1 ?db') \<or>
             EvPanic v \<in> set (events_since db1 ?db'))"
    by (rule loop_progress [OF wb _ _ f1 t1 _ loop]) (use h v1 in simp_all)
  moreover have "set (events_since db1 ?db') \<subseteq> set (events_since db ?db')"
  proof -
    from loop_outcome [OF loop] obtain more where "trace ?db' = trace db1 @ more"
      by (auto simp: loop_outcome_def)
    moreover from p have "trace db1 = trace db @ pre" by (simp add: prelude_def)
    ultimately have "events_since db1 ?db' = more" "events_since db ?db' = pre @ more"
      by simp_all
    then show ?thesis by simp
  qed
  ultimately show "fst (Migrate db ms) = None" using h by blast
qed

theorem bootstrap_applies_all_witness:
  "fst (Migrate (fresh Postgres) users_posts) = None \<and>
   contents (snd (Migrate (fresh Postgres) users_posts)) =
     \<lparr>schema_migrations = Some [(1, ''2024-01-01T00:00:00Z''), (2, ''2024-01-01T00:00:00Z'')],
      schema = [''users'', ''posts'']\<rparr> \<and>
   invoked (events_since (fresh Postgres) (snd (Migrate (fresh Postgres) users_posts))) = [1, 2] \<and>
   committed (events_since (fresh Postgres) (snd (Migrate (fresh Postgres) users_posts))) = [1, 2]"
proof -
  let ?db' = "snd (Migrate (fresh Postgres) users_posts)"
  have a: "schema_migrations (contents (fresh Postgres)) = None" by (simp add: fresh_def)
  have k: "\<forall>(k, m) \<in> set users_posts. 0 \<le> k \<and> keeps_records m \<and> leaves_open m"
    by (simp add: users_posts_def)
  have n: "no_ErrNoRows (faults (fresh Postgres))" by (simp add: no_ErrNoRows_def fresh_def)
  have evs: "events_since (fresh Postgres) ?db' =
     [EvMigrate, EvBegin, EvSelectMax, EvRollback, EvCreateTable,
      EvMigrate, EvBegin, EvSelectMax, EvCommit] @ tx_events 1 @ tx_events 2"
    by code_simp
  have nb: "\<forall>v. EvBody v False \<notin> set (events_since (fresh Postgres) ?db') \<and>
                EvPanic v \<notin> set (events_since (fresh Postgres) ?db')"
    unfolding evs by (simp add: tx_events_def)
  have h: "faults (fresh Postgres) = [] \<and> driver (fresh Postgres) \<noteq> OtherDriver \<and>
           distinct (map fst users_posts)"
    by (simp add: fresh_def users_posts_def)
  have s: "sort (map fst users_posts) = [1, 2]" by (simp add: users_posts_def)
  have c: "contents ?db' =
     \<lparr>schema_migrations = Some [(1, ''2024-01-01T00:00:00Z''), (2, ''2024-01-01T00:00:00Z'')],
      schema = [''users'', ''posts'']\<rparr>"
    by code_simp
  note T = bootstrap_applies_all [OF a k n]
  from T h nb have e: "fst (Migrate (fresh Postgres) users_posts) = None" by blast
  with T s have "invoked (events_since (fresh Postgres) ?db') = [1, 2]"
    and "committed (events_since (fresh Postgres) ?db') = [1, 2]"
    by simp_all
  with e c show ?thesis by simp
qed

text \<open>
  C6 does not extend to a version below 0: on a fresh database \<open>Migrate\<close> returns \<open>nil\<close>
  and creates the table, but the body of version \<open>-1\<close> is not invoked and nothing is
  recorded.
\<close>

theorem bootstrap_skips_negative_versions:
  "fst (Migrate (fresh Postgres) negative_only) = None \<and>
   invoked (events_since (fresh Postgres) (snd (Migrate (fresh Postgres) negative_only))) = [] \<and>
   contents (snd (Migrate (fresh Postgres) negative_only)) =
     \<lparr>schema_migrations = Some [], schema = []\<rparr>"
  by code_simp

text \<open>
  C7.  When the watermark query fails with an error that is neither a \<open>*pq.Error\<close> nor a
  \<open>sqlite3.Error\<close> (and is not \<open>sql.ErrNoRows\<close>, which the code does not treat as a
  failure), \<open>Migrate\<close> rolls the read transaction back and returns the error
  \<open>unsupported driver\<close> behind the context \<open>failed to parse error\<close>, not the generic
  wrapping of the query's error; the contents are untouched and nothing else is tried.
\<close>

theorem unsupported_driver_error:
  assumes "db_Begin (emit EvMigrate db) = (Inr tx, db1)"
    and "select_max tx db1 = (Inl e, db2)"
    and "errors_As_pq e = None" and "\<not> errors_As_sqlite3 e"
    and "\<not> errors_Is e ErrNoRows"
  shows "Migrate db ms =
           (Some (Err (Wrap ''failed to parse error'' (ErrorString ''unsupported driver''))),
            tx_Rollback db2) \<and>
         Error (Wrap ''failed to parse error'' (ErrorString ''unsupported driver'')) =
           ''failed to parse error: unsupported driver'' \<and>
         contents (tx_Rollback db2) = contents db \<and>
         events_since db (tx_Rollback db2) = [EvMigrate, EvBegin, EvSelectMax, EvRollback]"
proof -
  from assms(3,4) have "isUndefinedTable e = Inl (ErrorString ''unsupported driver'')"
    by (simp add: isUndefinedTable_def)
  with select_failure [OF assms(1,2,5)] show ?thesis
    by (simp add: Migrate.simps [of db ms])
qed

theorem unsupported_driver_error_witness:
  "Migrate (fresh OtherDriver) gaps =
     (Some (Err (Wrap ''failed to parse error'' (ErrorString ''unsupported driver''))),
      (fresh OtherDriver)\<lparr>trace := [EvMigrate, EvBegin, EvSelectMax, EvRollback]\<rparr>) \<and>
   contents (snd (Migrate (fresh OtherDriver) gaps)) = contents (fresh OtherDriver)"
proof -
  let ?tx = "\<lparr>work = contents (fresh OtherDriver), ended = False\<rparr>"
  let ?db1 = "(fresh OtherDriver)\<lparr>trace := [EvMigrate, EvBegin]\<rparr>"
  let ?db2 = "(fresh OtherDriver)\<lparr>trace := [EvMigrate, EvBegin, EvSelectMax]\<rparr>"
  let ?e = "DriverError ''table schema_migrations does not exist''"
  have b: "db_Begin (emit EvMigrate (fresh OtherDriver)) = (Inr ?tx, ?db1)"
    by (simp add: db_Begin_def emit_def next_fault_def fresh_def)
  have q: "select_max ?tx ?db1 = (Inl ?e, ?db2)"
    by (simp add: select_max_def emit_def next_fault_def fresh_def)
  have "errors_As_pq ?e = None" "\<not> errors_As_sqlite3 ?e" "\<not> errors_Is ?e ErrNoRows"
    by simp_all
  from unsupported_driver_error [OF b q this, of gaps] show ?thesis
    by (simp add: tx_Rollback_def emit_def)
qed

text \<open>
  C8 (for the errors of the two drivers).  When the watermark query fails with an error that the detection
  classifies (a \<open>*pq.Error\<close> or a \<open>sqlite3.Error\<close>) as not being the undefined table, and
  that is not \<open>sql.ErrNoRows\<close>, \<open>Migrate\<close> rolls the read transaction back and returns
  the error wrapped with \<open>failed to select max applied migration\<close>.
\<close>

theorem select_failure_is_wrapped:
  assumes "db_Begin (emit EvMigrate db) = (Inr tx, db1)"
    and "select_max tx db1 = (Inl e, db2)"
    and "isUndefinedTable e = Inr False"
    and "\<not> errors_Is e ErrNoRows"
  shows "Migrate db ms =
           (Some (Err (Wrap ''failed to select max applied migration'' e)), tx_Rollback db2) \<and>
         contents (tx_Rollback db2) = contents db \<and>
         events_since db (tx_Rollback db2) = [EvMigrate, EvBegin, EvSelectMax, EvRollback]"
proof -
  have "\<not> errors_Is e errMissingSchemaMigration"
    using missing_not_driver_error [of e] assms(3)
    by (auto simp: isUndefinedTable_def split: option.splits if_splits)
  with select_failure [OF assms(1,2,4)] assms(3) show ?thesis
    by (simp add: Migrate.simps [of db ms])
qed

theorem select_failure_is_wrapped_witness:
  "fst (Migrate (query_fails Postgres (PqError ''insufficient_privilege'' ''permission denied'')) gaps) =
     Some (Err (Wrap ''failed to select max applied migration''
                  (PqError ''insufficient_privilege'' ''permission denied''))) \<and>
   contents (snd (Migrate (query_fails Postgres
       (PqError ''insufficient_privilege'' ''permission denied'')) gaps)) = contents (bootstrapped Postgres)"
proof -
  let ?e = "PqError ''insufficient_privilege'' ''permission denied''"
  let ?db = "query_fails Postgres ?e"
  let ?tx = "\<lparr>work = contents ?db, ended = False\<rparr>"
  let ?b = "db_Begin (emit EvMigrate ?db)"
  let ?q = "select_max ?tx (snd ?b)"
  have "fst ?b = Inr ?tx" by code_simp
  then have b: "?b = (Inr ?tx, snd ?b)" by (simp add: prod_eq_iff)
  have "fst ?q = Inl ?e" by code_simp
  then have q: "?q = (Inl ?e, snd ?q)" by (simp add: prod_eq_iff)
  have u: "isUndefinedTable ?e = Inr False" by (simp add: isUndefinedTable_def)
  have n: "\<not> errors_Is ?e ErrNoRows" by simp
  have c: "contents ?db = contents (bootstrapped Postgres)" by (simp add: query_fails_def)
  from select_failure_is_wrapped [OF b q u n, of gaps] c show ?thesis by simp
qed

text \<open>
  C8 does not extend to errors of other types: such a failure of the query, with the
  table in place, comes back as \<open>failed to parse error: unsupported driver\<close>, and the error of the query
  is lost.
\<close>

theorem select_failure_not_always_wrapped:
  "fst (Migrate (query_fails OtherDriver (DriverError ''Error 1045: Access denied'')) []) =
     Some (Err (Wrap ''failed to parse error'' (ErrorString ''unsupported driver''))) \<and>
   fst (Migrate (query_fails OtherDriver (DriverError ''Error 1045: Access denied'')) []) \<noteq>
     Some (Err (Wrap ''failed to select max applied migration''
                  (DriverError ''Error 1045: Access denied'')))"
  by code_simp

text \<open>
  C9.  With an empty map no body is ever invoked.  When no call to the database fails and
  the table exists or the driver is one that lets its absence be recognised, \<open>Migrate\<close>
  returns \<open>nil\<close>, and afterwards the table exists with the rows it had: it was created if
  it was absent, although there was nothing to apply.
\<close>

theorem Migrate_empty_map:
  "invoked (events_since db (snd (Migrate db []))) = [] \<and>
   (faults db = [] \<and> (schema_migrations (contents db) \<noteq> None \<or> driver db \<noteq> OtherDriver) \<longrightarrow>
      fst (Migrate db []) = None \<and>
      contents (snd (Migrate db [])) =
        (contents db)\<lparr>schema_migrations := Some (records (contents db))\<rparr>)"
proof (intro conjI impI)
  have "Migrate db [] = (fst (Migrate db []), snd (Migrate db []))" by simp
  from run_invoked [OF this] show "invoked (events_since db (snd (Migrate db []))) = []"
    by auto
next
  assume h: "faults db = [] \<and> (schema_migrations (contents db) \<noteq> None \<or> driver db \<noteq> OtherDriver)"
  then have f: "faults db = []"
    and g: "schema_migrations (contents db) \<noteq> None \<or> driver db \<noteq> OtherDriver"
    by simp_all
  from Migrate_healthy [OF f g, of "[]"] obtain db1 where
    c: "contents db1 = (contents db)\<lparr>schema_migrations := Some (records (contents db))\<rparr>"
    and "Migrate db [] = (None, db1)"
    by auto
  then show "fst (Migrate db []) = None"
    and "contents (snd (Migrate db [])) =
        (contents db)\<lparr>schema_migrations := Some (records (contents db))\<rparr>"
    using c by simp_all
qed

theorem Migrate_empty_map_witness:
  "fst (Migrate (fresh SQLite) []) = None \<and>
   contents (snd (Migrate (fresh SQLite) [])) = \<lparr>schema_migrations = Some [], schema = []\<rparr> \<and>
   contents (fresh SQLite) = \<lparr>schema_migrations = None, schema = []\<rparr> \<and>
   invoked (events_since (fresh SQLite) (snd (Migrate (fresh SQLite) []))) = []"
proof -
  have "faults (fresh SQLite) = [] \<and>
        (schema_migrations (contents (fresh SQLite)) \<noteq> None \<or> driver (fresh SQLite) \<noteq> OtherDriver)"
    by (simp add: fresh_def)
  with Migrate_empty_map [of "fresh SQLite"] show ?thesis
    by (simp add: fresh_def records_def)
qed

text \<open>
  C10.  On a database with no applied migration (the table absent or empty, the watermark
  query not answered with \<open>sql.ErrNoRows\<close>) the watermark is the sentinel \<open>-1\<close>.  The
  supplied versions below 0 then make no difference at all: the run is the run of the map
  without them, no error is raised on their account, and every body invoked has a
  version of at least 0.  Version 0 is outstanding: when no call to the database fails
  and the driver is PostgreSQL or SQLite, its body is the first invoked, and it is
  committed if the body succeeds and leaves the table of applied migrations alone.
\<close>

theorem sentinel_skips_negative_versions:
  assumes "records (contents db) = []" and "no_ErrNoRows (faults db)"
  shows "Migrate db (filter (\<lambda>(k, m). 0 \<le> k) ms) = Migrate db ms \<and>
         (\<forall>k \<in> set (invoked (events_since db (snd (Migrate db ms)))). 0 \<le> k) \<and>
         (faults db = [] \<and> driver db \<noteq> OtherDriver \<and> map_of ms 0 = Some m \<longrightarrow>
            (\<exists>rest. invoked (events_since db (snd (Migrate db ms))) = 0 # rest) \<and>
            (always_succeeds m \<and> keeps_records m \<longrightarrow>
               (\<exists>rest. committed (events_since db (snd (Migrate db ms))) = 0 # rest)))"
proof (intro conjI impI)
  let ?db' = "snd (Migrate db ms)"
  let ?keys = "sort (map fst ms)"
  show "Migrate db (filter (\<lambda>(k, m). 0 \<le> k) ms) = Migrate db ms"
    by (rule Migrate_nonneg [OF assms])
  have res: "Migrate db ms = (fst (Migrate db ms), ?db')" by simp
  from assms(1) have w: "coalesce (sql_max (versions (contents db))) (- 1) = - 1"
    by (simp add: versions_def coalesce_def)
  from run_invoked_above [OF res assms(2)] w
  show "\<forall>k \<in> set (invoked (events_since db ?db')). 0 \<le> k" by auto
  assume h: "faults db = [] \<and> driver db \<noteq> OtherDriver \<and> map_of ms 0 = Some m"
  then have m0: "map_of ms 0 = Some m" by simp
  from h Migrate_healthy [of db ms] w assms(1) obtain pre db1 where
    p: "prelude db db1 pre" and f1: "faults db1 = []"
    and c1: "contents db1 = (contents db)\<lparr>schema_migrations := Some []\<rparr>"
    and m: "Migrate db ms = apply_outstanding ms (- 1) ?keys db1"
    by auto
  from p have t1: "trace db1 = trace db @ pre" by (simp add: prelude_def)
  from map_of_SomeD [OF m0] have "0 \<in> set (map fst ms)" by force
  then have "0 \<in> set (filter ((<) (- 1)) ?keys)" by simp
  moreover have "sorted (filter ((<) (- 1)) ?keys)"
    by (rule sorted_wrt_filter) simp
  ultimately obtain rest where f: "filter ((<) (- 1)) ?keys = 0 # rest"
    using sorted_least_first [of "filter ((<) (- 1)) ?keys" 0] by auto
  from m res have "apply_outstanding ms (- 1) ?keys db1 = (fst (Migrate db ms), ?db')" by simp
  then have loop: "apply_outstanding ms (- 1) (0 # rest) db1 = (fst (Migrate db ms), ?db')"
    using loop_filter [of ms "- 1" ?keys db1] f by simp
  note F = first_outstanding [OF loop _ f1 m0]
  from F obtain ev evs where "trace ?db' = trace db1 @ EvBegin # ev # evs" "invoked [ev] = [0]"
    by auto
  with t1 have "events_since db ?db' = pre @ [EvBegin] @ [ev] @ evs" "invoked [ev] = [0]"
    by simp_all
  then have "invoked (events_since db ?db') = 0 # invoked evs"
    using p by (simp add: prelude_def invoked_prelude del: invoked.simps append.simps)
  then show "\<exists>rest. invoked (events_since db ?db') = 0 # rest" by blast
  assume good: "always_succeeds m \<and> keeps_records m"
  from c1 have "schema_migrations (contents db1) \<noteq> None" "0 \<notin> set (versions (contents db1))"
    by (simp_all add: versions_def records_def)
  with F good obtain evs' where
    "trace ?db' = trace db1 @ tx_events 0 @ evs'"
    "committed (tx_events 0 @ evs') = 0 # committed evs'"
    by auto
  moreover from p have "\<forall>k. EvLog k \<notin> set pre" by (auto simp: prelude_def)
  ultimately have "events_since db ?db' = pre @ tx_events 0 @ evs'"
    and "committed (pre @ tx_events 0 @ evs') = 0 # committed evs'"
    using t1 by (simp_all add: committed_prelude)
  then show "\<exists>rest. committed (events_since db ?db') = 0 # rest" by simp
qed

theorem sentinel_skips_negative_versions_witness:
  "Migrate (fresh Postgres) [(0, create_table ''users'')] = Migrate (fresh Postgres) with_negative \<and>
   fst (Migrate (fresh Postgres) with_negative) = None \<and>
   invoked (events_since (fresh Postgres) (snd (Migrate (fresh Postgres) with_negative))) = [0] \<and>
   (\<exists>rest. invoked (events_since (fresh Postgres)
             (snd (Migrate (fresh Postgres) with_negative))) = 0 # rest) \<and>
   contents (snd (Migrate (fresh Postgres) with_negative)) =
     \<lparr>schema_migrations = Some [(0, ''2024-01-01T00:00:00Z'')], schema = [''users'']\<rparr>"
proof -
  have r: "records (contents (fresh Postgres)) = []" by (simp add: fresh_def records_def)
  have n: "no_ErrNoRows (faults (fresh Postgres))" by (simp add: no_ErrNoRows_def fresh_def)
  have f: "filter (\<lambda>(k, m). 0 \<le> k) with_negative = [(0, create_table ''users'')]"
    by (simp add: with_negative_def)
  have e: "fst (Migrate (fresh Postgres) with_negative) = None" by code_simp
  have i: "invoked (events_since (fresh Postgres) (snd (Migrate (fresh Postgres) with_negative))) = [0]"
    by code_simp
  have c: "contents (snd (Migrate (fresh Postgres) with_negative)) =
     \<lparr>schema_migrations = Some [(0, ''2024-01-01T00:00:00Z'')], schema = [''users'']\<rparr>"
    by code_simp
  have h: "faults (fresh Postgres) = [] \<and> driver (fresh Postgres) \<noteq> OtherDriver \<and>
           map_of with_negative 0 = Some (create_table ''users'')"
    by (simp add: fresh_def with_negative_def)
  note T = sentinel_skips_negative_versions [OF r n, of with_negative "create_table ''users''"]
  from T h have "\<exists>rest. invoked (events_since (fresh Postgres)
             (snd (Migrate (fresh Postgres) with_negative))) = 0 # rest"
    by blast
  moreover from T f have "Migrate (fresh Postgres) [(0, create_table ''users'')] =
      Migrate (fresh Postgres) with_negative"
    by simp
  ultimately show ?thesis using e i c by simp
qed

end
